theory Spec2Isabelle
  imports Main
begin

section \<open>Python values, exceptions and string helpers\<close>

text \<open>
  The exceptions that can leave \<open>UCI.process_command\<close> and \<open>UCI.check_best_move\<close>.
  Nothing in \<open>main.py\<close> catches an exception, so each of them reaches the caller.
\<close>

datatype error =
  IndexError | ValueError | TypeError | AttributeError | InvalidMoveError | AssertionError

text \<open>
  The objects a search task may put on the result queue. \<open>check_best_move\<close> and the
  \<open>stop\<close> branch distinguish a \<open>str\<close>, a \<open>list\<close>/\<open>tuple\<close> and everything else.
\<close>

datatype pyval = PStr string | PSeq "pyval list" | PObj

text \<open>\<open>str.startswith\<close>.\<close>

fun startswith :: "string \<Rightarrow> string \<Rightarrow> bool" where
  "startswith s [] = True"
| "startswith [] (p # ps) = False"
| "startswith (c # cs) (p # ps) = (c = p \<and> startswith cs ps)"

text \<open>\<open>str.split(" ")\<close>: splits at every single space and keeps empty fields.\<close>

fun split_sp :: "string \<Rightarrow> string list" where
  "split_sp [] = [[]]"
| "split_sp (c # cs) =
     (if c = CHR '' '' then [] # split_sp cs
      else (case split_sp cs of [] \<Rightarrow> [[c]] | x # xs \<Rightarrow> (c # x) # xs))"

text \<open>\<open>" ".join(xs)\<close>.\<close>

fun join_sp :: "string list \<Rightarrow> string" where
  "join_sp [] = []"
| "join_sp [x] = x"
| "join_sp (x # y # ys) = x @ '' '' @ join_sp (y # ys)"

text \<open>
  \<open>int(s)\<close> in CPython 3.11 with its default settings, on a string whose characters are
  the code points below 256. The code points 0x85 and 0xA0 count as blanks; blanks
  (these two and space, tab, line feed, vertical tab, form feed, carriage return) are
  stripped at both ends; one sign is allowed; then decimal digits follow, with single
  underscores between digits; more than 4300 digits are refused. Everything else raises
  \<open>ValueError\<close>.
\<close>

definition is_space :: "char \<Rightarrow> bool" where
  "is_space c = (c \<in> set [CHR '' '', CHR 0x09, CHR 0x0A, CHR 0x0B, CHR 0x0C, CHR 0x0D,
                           CHR 0x85, CHR 0xA0])"

definition is_digit :: "char \<Rightarrow> bool" where
  "is_digit c = (c \<in> set ''0123456789'')"

definition digit_val :: "char \<Rightarrow> int" where
  "digit_val c = int (of_char c) - 48"

definition strip :: "string \<Rightarrow> string" where
  "strip s = rev (dropWhile is_space (rev (dropWhile is_space s)))"

text \<open>
  \<open>digits acc prev s\<close> reads the digits after the first one; \<open>prev\<close> says whether the
  previous character was an underscore.
\<close>

fun digits :: "int \<Rightarrow> bool \<Rightarrow> string \<Rightarrow> error + int" where
  "digits acc us [] = (if us then Inl ValueError else Inr acc)"
| "digits acc us (c # cs) =
     (if is_digit c then digits (acc * 10 + digit_val c) False cs
      else if c = CHR ''_'' \<and> \<not> us then digits acc True cs
      else Inl ValueError)"

definition unsigned :: "string \<Rightarrow> error + int" where
  "unsigned s =
     (if 4300 < length (filter is_digit s) then Inl ValueError
      else (case s of
              [] \<Rightarrow> Inl ValueError
            | c # cs \<Rightarrow> if is_digit c then digits (digit_val c) False cs else Inl ValueError))"

definition py_int :: "string \<Rightarrow> error + int" where
  "py_int s =
     (case strip s of
        [] \<Rightarrow> Inl ValueError
      | c # cs \<Rightarrow>
          if c = CHR ''-'' then (case unsigned cs of Inl e \<Rightarrow> Inl e | Inr n \<Rightarrow> Inr (- n))
          else if c = CHR ''+'' then unsigned cs
          else unsigned (c # cs))"

section \<open>The chess rules library\<close>

text \<open>
  \<open>main.py\<close> uses four operations of the \<open>chess\<close> package, which is not part of the
  repository: \<open>chess.Board(fen)\<close>, \<open>chess.Move.from_uci(token)\<close>, \<open>Board.push(move)\<close> and
  \<open>Board.fen()\<close>. They are a parameter of the model; the first three can raise.
\<close>

record ('b, 'm) rules =
  Board :: "string \<Rightarrow> error + 'b"
  from_uci :: "string \<Rightarrow> error + 'm"
  push :: "'b \<Rightarrow> 'm \<Rightarrow> error + 'b"
  fen :: "'b \<Rightarrow> string"

section \<open>Session state, threads and the search task\<close>

text \<open>
  A started \<open>threading.Thread\<close>: whether it is still alive, and the position, time limit
  and depth it was started with (the first three entries of \<open>args\<close>).
\<close>

record thread =
  alive :: bool
  t_position :: string
  t_time_limit :: int
  t_max_depth :: int

text \<open>
  The fields of \<open>UCI\<close> as \<open>__init__\<close> sets them, the threads started so far (a handle is
  an index into that list), the messages that the search threads have taken off the
  control queue, each with the index of the thread that took it, and the lines printed
  by \<open>send\<close>. \<open>send_queue\<close> carries the supervisor's messages to the task, \<open>recv_queue\<close>
  the task's results.
\<close>

record uci =
  best_move :: "pyval option"
  position :: string
  time_limit :: int
  send_queue :: "string list"
  recv_queue :: "pyval list"
  max_depth :: int
  author :: string
  engine_name :: string
  move_thread :: "nat option"
  threads :: "thread list"
  taken :: "(nat \<times> string) list"
  stdout :: "string list"

definition uci_init :: "string \<Rightarrow> string \<Rightarrow> uci" where
  "uci_init a n =
     \<lparr>best_move = None, position = ''startpos'', time_limit = 0, send_queue = [],
      recv_queue = [], max_depth = 0, author = a, engine_name = n, move_thread = None,
      threads = [], taken = [], stdout = []\<rparr>"

definition send :: "uci \<Rightarrow> string \<Rightarrow> uci" where
  "send w text = w\<lparr>stdout := stdout w @ [text]\<rparr>"

definition thread_alive :: "uci \<Rightarrow> nat \<Rightarrow> bool" where
  "thread_alive w t = (t < length (threads w) \<and> alive (threads w ! t))"

text \<open>
  The search function is supplied by the user of the class and runs on its own thread.
  What it does is a sequence of actions of its thread: putting an object on the result
  queue, taking a message from the control queue when there is one, and returning. A
  thread that has returned does nothing more.
\<close>

datatype action = Put pyval | Take | Exit

type_synonym sched = "(nat \<times> action) list"

fun task_step :: "nat \<times> action \<Rightarrow> uci \<Rightarrow> uci" where
  "task_step (t, a) w =
     (if \<not> thread_alive w t then w
      else (case a of
              Put v \<Rightarrow> w\<lparr>recv_queue := recv_queue w @ [v]\<rparr>
            | Take \<Rightarrow>
                (case send_queue w of
                   [] \<Rightarrow> w
                 | m # q \<Rightarrow> w\<lparr>send_queue := q, taken := taken w @ [(t, m)]\<rparr>)
            | Exit \<Rightarrow> w\<lparr>threads := (threads w)[t := (threads w ! t)\<lparr>alive := False\<rparr>]\<rparr>))"

fun task_steps :: "sched \<Rightarrow> uci \<Rightarrow> uci" where
  "task_steps [] w = w"
| "task_steps (e # es) w = task_steps es (task_step e w)"

text \<open>
  The two places where the command thread waits. While it waits, the search threads act;
  \<open>None\<close> means that the wait has not ended when the threads have done all they do.
  \<open>Thread.join()\<close> returns once the thread is no longer alive.

  The statements that the command thread executes between two waits are one step of the
  model. In them it touches the queues only at the start of a call (putting \<open>"stop"\<close>),
  when it takes the result it has just waited for (no search thread takes from the
  result queue), or where no search thread is alive (after a \<open>join\<close>, or with no handle
  set, by the invariant \<open>tasks_ok\<close> below). The schedule of the threads is arbitrary, so
  every interleaving of the program is a schedule of the model.
\<close>

fun join :: "nat \<Rightarrow> uci \<Rightarrow> sched \<Rightarrow> (uci \<times> sched) option" where
  "join t w [] = (if thread_alive w t then None else Some (w, []))"
| "join t w (e # es) =
     (if thread_alive w t then join t (task_step e w) es else Some (w, e # es))"

text \<open>\<open>while self.recv_queue.empty(): time.sleep(0.1)\<close>\<close>

fun wait_recv :: "uci \<Rightarrow> sched \<Rightarrow> (uci \<times> sched) option" where
  "wait_recv w [] = (if recv_queue w = [] then None else Some (w, []))"
| "wait_recv w (e # es) =
     (if recv_queue w = [] then wait_recv (task_step e w) es else Some (w, e # es))"

text \<open>\<open>while not q.empty(): q.get()\<close>\<close>

fun drain :: "'a list \<Rightarrow> 'a list" where
  "drain [] = []"
| "drain (x # xs) = drain xs"

section \<open>Commands\<close>

text \<open>How a call ends: it returns a value, raises, or leaves through \<open>sys.exit\<close>.\<close>

datatype 'a outcome = Returned 'a uci | Raised error uci | Exited uci

fun state_of :: "'a outcome \<Rightarrow> uci" where
  "state_of (Returned x w) = w"
| "state_of (Raised e w) = w"
| "state_of (Exited w) = w"

text \<open>
  The output of a result, shared by the \<open>stop\<close> branch and \<open>check_best_move\<close>: one line
  for a \<open>str\<close>, one line from the first two entries of a list or tuple, no line for any
  other object.
\<close>

definition report :: "'a \<Rightarrow> uci \<Rightarrow> pyval \<Rightarrow> 'a outcome" where
  "report x w v =
     (case v of
        PStr m \<Rightarrow> Returned x (send w (''bestmove '' @ m))
      | PSeq xs \<Rightarrow>
          (case xs of
             [] \<Rightarrow> Raised IndexError w
           | a # rest \<Rightarrow>
               (case a of
                  PStr m \<Rightarrow>
                    (case rest of
                       [] \<Rightarrow> Raised IndexError w
                     | b # _ \<Rightarrow>
                         (case b of
                            PStr p \<Rightarrow> Returned x (send w (''bestmove '' @ m @ '' ponder '' @ p))
                          | _ \<Rightarrow> Raised TypeError w))
                | _ \<Rightarrow> Raised TypeError w))
      | PObj \<Rightarrow> Returned x w)"

text \<open>The \<open>uci\<close> branch.\<close>

definition uci_cmd :: "uci \<Rightarrow> uci" where
  "uci_cmd w =
     send (send (send w (''id name '' @ engine_name w)) (''id author '' @ author w)) ''uciok''"

text \<open>The loop over \<open>args[9:]\<close> of the \<open>position\<close> branch.\<close>

fun push_all :: "('b, 'm) rules \<Rightarrow> 'b \<Rightarrow> string list \<Rightarrow> error + 'b" where
  "push_all r b [] = Inr b"
| "push_all r b (a # as) =
     (case from_uci r a of
        Inl e \<Rightarrow> Inl e
      | Inr m \<Rightarrow> (case push r b m of Inl e \<Rightarrow> Inl e | Inr b' \<Rightarrow> push_all r b' as))"

text \<open>The \<open>position\<close> branch.\<close>

definition position_cmd :: "('b, 'm) rules \<Rightarrow> uci \<Rightarrow> string \<Rightarrow> unit outcome" where
  "position_cmd r w command =
     (let w1 = w\<lparr>position := ''startpos''\<rparr>;
          args = split_sp command
      in if length args \<le> 1 then Raised IndexError w1
         else
           let w2 = (if args ! 1 \<noteq> ''startpos'' \<and> args ! 1 = ''fen''
                     then w1\<lparr>position := join_sp (take 6 (drop 2 args))\<rparr> else w1)
           in (case Board r (position w2) of
                 Inl e \<Rightarrow> Raised e w2
               | Inr b \<Rightarrow>
                   if length args > 8 \<and> args ! 8 = ''moves'' then
                     (case push_all r b (drop 9 args) of
                        Inl e \<Rightarrow> Raised e w2
                      | Inr b' \<Rightarrow> Returned () (w2\<lparr>position := fen r b'\<rparr>))
                   else Returned () (w2\<lparr>position := fen r b\<rparr>)))"

text \<open>
  The loop \<open>for i in range(1, len(args))\<close> of the \<open>go\<close> branch, on \<open>args[1:]\<close>: the head
  of the list is \<open>args[i]\<close>, the head of the rest is \<open>args[i + 1]\<close>.
\<close>

fun go_args :: "string list \<Rightarrow> int \<Rightarrow> int \<Rightarrow> error + (int \<times> int)" where
  "go_args [] tlim md = Inr (tlim, md)"
| "go_args (a # rest) tlim md =
     (if a = ''movetime'' then
        (case rest of
           [] \<Rightarrow> Inl IndexError
         | n # _ \<Rightarrow> (case py_int n of Inl e \<Rightarrow> Inl e | Inr v \<Rightarrow> go_args rest v md))
      else if a = ''depth'' then
        (case rest of
           [] \<Rightarrow> Inl IndexError
         | n # _ \<Rightarrow> (case py_int n of Inl e \<Rightarrow> Inl e | Inr v \<Rightarrow> go_args rest tlim v))
      else if a = ''infinite'' then go_args rest 999999999 md
      else go_args rest tlim md)"

text \<open>The \<open>go\<close> branch from the queue draining on: lines 119 to 146.\<close>

definition go_start :: "uci \<Rightarrow> string \<Rightarrow> unit outcome" where
  "go_start w command =
     (let w1 = w\<lparr>send_queue := drain (send_queue w)\<rparr>;
          w2 = w1\<lparr>recv_queue := drain (recv_queue w1)\<rparr>
      in (case go_args (tl (split_sp command)) 0 0 of
            Inl e \<Rightarrow> Raised e w2
          | Inr (tlim, md) \<Rightarrow>
              Returned ()
                (w2\<lparr>threads := threads w2 @
                        [\<lparr>alive = True, t_position = position w2,
                          t_time_limit = tlim, t_max_depth = md\<rparr>],
                     move_thread := Some (length (threads w2))\<rparr>)))"

text \<open>The \<open>go\<close> branch.\<close>

definition go_cmd :: "uci \<Rightarrow> string \<Rightarrow> sched \<Rightarrow> (unit outcome \<times> sched) option" where
  "go_cmd w command es =
     (case move_thread w of
        None \<Rightarrow> Some (go_start w command, es)
      | Some t \<Rightarrow>
          (case join t (w\<lparr>send_queue := send_queue w @ [''stop'']\<rparr>) es of
             None \<Rightarrow> None
           | Some (w1, es1) \<Rightarrow> Some (go_start (w1\<lparr>move_thread := None\<rparr>) command, es1)))"

text \<open>The \<open>stop\<close> branch.\<close>

definition stop_cmd :: "uci \<Rightarrow> sched \<Rightarrow> (unit outcome \<times> sched) option" where
  "stop_cmd w es =
     (case wait_recv (w\<lparr>send_queue := send_queue w @ [''stop'']\<rparr>) es of
        None \<Rightarrow> None
      | Some (w1, es1) \<Rightarrow>
          (case recv_queue w1 of
             [] \<Rightarrow> None
           | v # q \<Rightarrow>
               let w2 = w1\<lparr>best_move := Some v, recv_queue := q\<rparr>
               in (case move_thread w2 of
                     None \<Rightarrow> Some (Raised AttributeError w2, es1)
                   | Some t \<Rightarrow>
                       (case join t w2 es1 of
                          None \<Rightarrow> None
                        | Some (w3, es3) \<Rightarrow> Some (report () w3 v, es3)))))"

text \<open>
  \<open>UCI.process_command\<close>. The schedule \<open>es\<close> is what the search threads do from the
  moment the command starts; the part the command did not wait through is returned.
\<close>

definition process_command ::
  "('b, 'm) rules \<Rightarrow> uci \<Rightarrow> string \<Rightarrow> sched \<Rightarrow> (unit outcome \<times> sched) option" where
  "process_command r w command es =
     (if command = ''uci'' then Some (Returned () (uci_cmd w), es)
      else if command = ''isready'' then Some (Returned () (send w ''readyok''), es)
      else if startswith command ''position'' then Some (position_cmd r w command, es)
      else if startswith command ''go'' then go_cmd w command es
      else if startswith command ''stop'' then stop_cmd w es
      else if startswith command ''ucinewgame'' then
        Some (Returned () (w\<lparr>position := ''startpos''\<rparr>), es)
      else if startswith command ''setoption'' then Some (Returned () w, es)
      else if startswith command ''quit'' then Some (Exited w, es)
      else Some (Returned () w, es))"

text \<open>
  \<open>UCI.check_best_move\<close> from line 195 on: the result queue is looked at once.
\<close>

definition check_recv :: "uci \<Rightarrow> bool outcome" where
  "check_recv w =
     (case recv_queue w of
        [] \<Rightarrow> Returned False w
      | v # q \<Rightarrow> report True (w\<lparr>best_move := Some v, recv_queue := q\<rparr>) v)"

text \<open>
  \<open>UCI.check_best_move\<close>. It calls \<open>join\<close> only on a thread for which \<open>is_alive()\<close> has
  just returned false.
\<close>

definition check_best_move :: "uci \<Rightarrow> sched \<Rightarrow> (bool outcome \<times> sched) option" where
  "check_best_move w es =
     (case move_thread w of
        None \<Rightarrow> Some (check_recv w, es)
      | Some t \<Rightarrow>
          if thread_alive w t then Some (Returned False w, es)
          else (case join t w es of
                  None \<Rightarrow> None
                | Some (w1, es1) \<Rightarrow> Some (check_recv (w1\<lparr>move_thread := None\<rparr>), es1)))"

section \<open>Sessions\<close>

text \<open>
  A session is a sequence of calls made by the command thread, each with what the search
  threads do from the start of that call until the next call starts. A call that raises
  or exits still leaves a state; the caller may go on from it.
\<close>

datatype call = Cmd string | Poll

definition exec :: "('b, 'm) rules \<Rightarrow> uci \<Rightarrow> call \<times> sched \<Rightarrow> uci option" where
  "exec r w c =
     (case c of
        (Cmd command, es) \<Rightarrow>
          (case process_command r w command es of
             None \<Rightarrow> None
           | Some (oc, es') \<Rightarrow> Some (task_steps es' (state_of oc)))
      | (Poll, es) \<Rightarrow>
          (case check_best_move w es of
             None \<Rightarrow> None
           | Some (oc, es') \<Rightarrow> Some (task_steps es' (state_of oc))))"

fun run :: "('b, 'm) rules \<Rightarrow> uci \<Rightarrow> (call \<times> sched) list \<Rightarrow> uci option" where
  "run r w [] = Some w"
| "run r w (c # cs) = (case exec r w c of None \<Rightarrow> None | Some w' \<Rightarrow> run r w' cs)"

section \<open>Auxiliary definitions for the statements\<close>

text \<open>
  The supervision invariant: a thread that is still alive is the one the handle
  \<open>move_thread\<close> refers to.
\<close>

definition tasks_ok :: "uci \<Rightarrow> bool" where
  "tasks_ok w = (\<forall>t < length (threads w). alive (threads w ! t) \<longrightarrow> move_thread w = Some t)"


text \<open>
  A small rules object for closed instances. It accepts a descriptor whose first field has
  eight rows and a move token in coordinate form, appends the moves it is given, and
  prints a board as its descriptor followed by those moves.
\<close>

definition is_square :: "string \<Rightarrow> bool" where
  "is_square s = (case s of [f, k] \<Rightarrow> f \<in> set ''abcdefgh'' \<and> k \<in> set ''12345678'' | _ \<Rightarrow> False)"

definition stub_rules :: "(string list, string) rules" where
  "stub_rules =
     \<lparr>Board = (\<lambda>s. if length (filter (\<lambda>c. c = CHR ''/'') (hd (split_sp s))) = 7
                     then Inr [s] else Inl ValueError),
      from_uci = (\<lambda>t. if (length t = 4 \<or> length t = 5 \<and> t ! 4 \<in> set ''pnbrqk'') \<and>
                          is_square (take 2 t) \<and> is_square (take 2 (drop 2 t)) \<and>
                          take 2 t \<noteq> take 2 (drop 2 t)
                       then Inr t else Inl InvalidMoveError),
      push = (\<lambda>b m. Inr (b @ [m])),
      fen = join_sp\<rparr>"


text \<open>
  A thread that was started and has returned, and a schedule with the actions of one
  thread left out.
\<close>

definition dead :: "uci \<Rightarrow> nat \<Rightarrow> bool" where
  "dead w t = (t < length (threads w) \<and> \<not> alive (threads w ! t))"

definition without :: "nat \<Rightarrow> sched \<Rightarrow> sched" where
  "without t es = filter (\<lambda>e. fst e \<noteq> t) es"

text \<open>
  The state in which a \<open>go\<close> with a handle set and a \<open>stop\<close> start to wait: \<open>"stop"\<close> has
  been put on the control queue.
\<close>

definition cancelled :: "uci \<Rightarrow> uci" where
  "cancelled w = w\<lparr>send_queue := send_queue w @ [''stop'']\<rparr>"

text \<open>
  What a schedule has to contain for a wait to end: a point at which thread \<open>t\<close> has
  returned, and a point at which it has returned and the result queue is not empty.
\<close>

definition dies_in :: "uci \<Rightarrow> nat \<Rightarrow> sched \<Rightarrow> bool" where
  "dies_in w t es = (\<exists>n \<le> length es. \<not> thread_alive (task_steps (take n es) w) t)"

definition delivers :: "uci \<Rightarrow> nat \<Rightarrow> sched \<Rightarrow> bool" where
  "delivers w t es =
     (\<exists>n \<le> length es. recv_queue (task_steps (take n es) w) \<noteq> [] \<and>
                        \<not> thread_alive (task_steps (take n es) w) t)"

text \<open>
  The words after \<open>go\<close> as the specification lists them: \<open>movetime\<close> and \<open>depth\<close> with the
  word that follows, \<open>infinite\<close>, and any other word. \<open>spec_limits\<close> reads them from left to
  right, starting from 0 and 0: \<open>movetime\<close> sets the time limit, \<open>depth\<close> the depth,
  \<open>infinite\<close> the time limit 999999999, and other words change nothing.
\<close>

datatype go_flag = Movetime string | Depth string | Infinite | Word string

fun flag_words :: "go_flag \<Rightarrow> string list" where
  "flag_words (Movetime s) = [''movetime'', s]"
| "flag_words (Depth s) = [''depth'', s]"
| "flag_words Infinite = [''infinite'']"
| "flag_words (Word s) = [s]"

fun flag_ok :: "go_flag \<Rightarrow> bool" where
  "flag_ok (Movetime s) = (CHR '' '' \<notin> set s \<and> \<not> isl (py_int s))"
| "flag_ok (Depth s) = (CHR '' '' \<notin> set s \<and> \<not> isl (py_int s))"
| "flag_ok Infinite = True"
| "flag_ok (Word s) = (CHR '' '' \<notin> set s \<and> s \<notin> set [''movetime'', ''depth'', ''infinite''])"

fun spec_set_limit :: "int \<times> int \<Rightarrow> go_flag \<Rightarrow> int \<times> int" where
  "spec_set_limit (tlim, md) (Movetime s) = (projr (py_int s), md)"
| "spec_set_limit (tlim, md) (Depth s) = (tlim, projr (py_int s))"
| "spec_set_limit (tlim, md) Infinite = (999999999, md)"
| "spec_set_limit (tlim, md) (Word s) = (tlim, md)"

definition spec_limits :: "go_flag list \<Rightarrow> int \<times> int" where
  "spec_limits fs = foldl spec_set_limit (0, 0) fs"

section \<open>What the search threads can change\<close>

lemma task_step_frame:
  "move_thread (task_step e w) = move_thread w"
  "length (threads (task_step e w)) = length (threads w)"
  "stdout (task_step e w) = stdout w"
  "position (task_step e w) = position w"
  "best_move (task_step e w) = best_move w"
  by (cases e; simp split: action.splits list.splits)+

lemma task_step_alive:
  "thread_alive (task_step e w) t \<Longrightarrow> thread_alive w t"
  by (cases e)
    (auto simp: thread_alive_def nth_list_update split: action.splits if_splits list.splits)

lemma task_steps_frame:
  "move_thread (task_steps es w) = move_thread w"
  "length (threads (task_steps es w)) = length (threads w)"
  "stdout (task_steps es w) = stdout w"
  "position (task_steps es w) = position w"
  "best_move (task_steps es w) = best_move w"
  by (induction es arbitrary: w; simp add: task_step_frame)+

lemma task_steps_alive:
  "thread_alive (task_steps es w) t \<Longrightarrow> thread_alive w t"
  by (induction es arbitrary: w) (auto dest: task_step_alive)

lemma task_steps_append: "task_steps (xs @ ys) w = task_steps ys (task_steps xs w)"
  by (induction xs arbitrary: w) auto

lemma join_steps:
  "join t w es = Some (w', es') \<Longrightarrow>
     \<exists>pre. es = pre @ es' \<and> w' = task_steps pre w \<and> \<not> thread_alive w' t"
proof (induction es arbitrary: w)
  case Nil
  then show ?case by (auto split: if_splits)
next
  case (Cons e es)
  show ?case
  proof (cases "thread_alive w t")
    case True
    with Cons.prems have "join t (task_step e w) es = Some (w', es')" by simp
    from Cons.IH[OF this] obtain pre where
      "es = pre @ es'" "w' = task_steps pre (task_step e w)" "\<not> thread_alive w' t" by blast
    then have "e # es = (e # pre) @ es' \<and> w' = task_steps (e # pre) w \<and> \<not> thread_alive w' t"
      by simp
    then show ?thesis by blast
  next
    case False
    with Cons.prems have "w' = w" "es' = e # es" by auto
    with False have "e # es = [] @ es' \<and> w' = task_steps [] w \<and> \<not> thread_alive w' t" by simp
    then show ?thesis by blast
  qed
qed

lemma wait_recv_steps:
  "wait_recv w es = Some (w', es') \<Longrightarrow>
     \<exists>pre. es = pre @ es' \<and> w' = task_steps pre w \<and> recv_queue w' \<noteq> []"
proof (induction es arbitrary: w)
  case Nil
  then show ?case by (auto split: if_splits)
next
  case (Cons e es)
  show ?case
  proof (cases "recv_queue w = []")
    case True
    with Cons.prems have "wait_recv (task_step e w) es = Some (w', es')" by simp
    from Cons.IH[OF this] obtain pre where
      "es = pre @ es'" "w' = task_steps pre (task_step e w)" "recv_queue w' \<noteq> []" by blast
    then have "e # es = (e # pre) @ es' \<and> w' = task_steps (e # pre) w \<and> recv_queue w' \<noteq> []"
      by simp
    then show ?thesis by blast
  next
    case False
    with Cons.prems have "w' = w" "es' = e # es" by auto
    with False have "e # es = [] @ es' \<and> w' = task_steps [] w \<and> recv_queue w' \<noteq> []" by simp
    then show ?thesis by blast
  qed
qed


lemma tasks_ok_alive: "tasks_ok w \<Longrightarrow> thread_alive w t \<Longrightarrow> move_thread w = Some t"
  by (simp add: tasks_ok_def thread_alive_def)

lemma tasks_okI: "(\<And>t. thread_alive w t \<Longrightarrow> move_thread w = Some t) \<Longrightarrow> tasks_ok w"
  by (simp add: tasks_ok_def thread_alive_def)

lemma tasks_ok_task_steps:
  assumes "tasks_ok w"
  shows "tasks_ok (task_steps es w)"
proof (rule tasks_okI)
  fix t
  assume "thread_alive (task_steps es w) t"
  then have "thread_alive w t" by (rule task_steps_alive)
  with assms have "move_thread w = Some t" by (rule tasks_ok_alive)
  then show "move_thread (task_steps es w) = Some t" by (simp add: task_steps_frame)
qed

lemma thread_alive_queues [simp]:
  "thread_alive (w\<lparr>send_queue := q\<rparr>) t = thread_alive w t"
  "thread_alive (w\<lparr>recv_queue := p\<rparr>) t = thread_alive w t"
  "thread_alive (w\<lparr>best_move := b\<rparr>) t = thread_alive w t"
  "thread_alive (w\<lparr>position := s\<rparr>) t = thread_alive w t"
  "thread_alive (w\<lparr>move_thread := h\<rparr>) t = thread_alive w t"
  "thread_alive (w\<lparr>stdout := l\<rparr>) t = thread_alive w t"
  by (simp_all add: thread_alive_def)

lemma go_start_alive:
  assumes "\<And>t. \<not> thread_alive w t"
  shows "tasks_ok (state_of (go_start w command))"
    and "\<And>t. t < length (threads w) \<Longrightarrow> \<not> thread_alive (state_of (go_start w command)) t"
  using assms
  by (auto simp: go_start_def Let_def tasks_ok_def thread_alive_def nth_append
           split: sum.splits prod.splits)

lemma go_cmd_joined:
  assumes ok: "tasks_ok w" and go: "go_cmd w command es = Some (oc, es')"
  shows "tasks_ok (state_of oc)"
    and "\<And>t. t < length (threads w) \<Longrightarrow> \<not> thread_alive (state_of oc) t"
proof -
  have "tasks_ok (state_of oc) \<and> (\<forall>t < length (threads w). \<not> thread_alive (state_of oc) t)"
  proof (cases "move_thread w")
    case None
    with ok have dead: "\<And>t. \<not> thread_alive w t" by (auto dest: tasks_ok_alive)
    from None go have "oc = go_start w command" by (simp add: go_cmd_def)
    with go_start_alive[OF dead] show ?thesis by blast
  next
    case (Some t)
    with go obtain w1 where j: "join t (w\<lparr>send_queue := send_queue w @ [''stop'']\<rparr>) es = Some (w1, es')"
      and oc: "oc = go_start (w1\<lparr>move_thread := None\<rparr>) command"
      by (auto simp: go_cmd_def split: option.splits)
    from join_steps[OF j] obtain pre where
      w1: "w1 = task_steps pre (w\<lparr>send_queue := send_queue w @ [''stop'']\<rparr>)"
      and nt: "\<not> thread_alive w1 t" by blast
    have dead: "\<not> thread_alive (w1\<lparr>move_thread := None\<rparr>) u" for u
    proof
      assume "thread_alive (w1\<lparr>move_thread := None\<rparr>) u"
      then have a1: "thread_alive w1 u" by simp
      then have "thread_alive w u" unfolding w1 by (auto dest: task_steps_alive)
      with ok Some have "u = t" by (auto dest: tasks_ok_alive)
      with a1 nt show False by simp
    qed
    have len: "length (threads (w1\<lparr>move_thread := None\<rparr>)) = length (threads w)"
      by (simp add: w1 task_steps_frame)
    from go_start_alive[where w = "w1\<lparr>move_thread := None\<rparr>" and command = command, OF dead] len oc
    show ?thesis by simp
  qed
  then show "tasks_ok (state_of oc)"
    and "\<And>t. t < length (threads w) \<Longrightarrow> \<not> thread_alive (state_of oc) t" by blast+
qed

lemma state_of_report: 
  "threads (state_of (report x w v)) = threads w"
  "move_thread (state_of (report x w v)) = move_thread w"
  by (auto simp: report_def send_def split: pyval.splits list.splits)

lemma tasks_ok_cong:
  "threads w' = threads w \<Longrightarrow> move_thread w' = move_thread w \<Longrightarrow> tasks_ok w' = tasks_ok w"
  by (simp add: tasks_ok_def)

lemma stop_cmd_ok:
  assumes ok: "tasks_ok w" and st: "stop_cmd w es = Some (oc, es')"
  shows "tasks_ok (state_of oc)"
proof -
  from st obtain w1 es1 v q where
    wr: "wait_recv (w\<lparr>send_queue := send_queue w @ [''stop'']\<rparr>) es = Some (w1, es1)"
    and rq: "recv_queue w1 = v # q"
    by (auto simp: stop_cmd_def split: option.splits list.splits)
  from wait_recv_steps[OF wr] obtain pre where
    w1: "w1 = task_steps pre (w\<lparr>send_queue := send_queue w @ [''stop'']\<rparr>)" by blast
  have "tasks_ok (w\<lparr>send_queue := send_queue w @ [''stop'']\<rparr>)"
    using ok by (simp add: tasks_ok_def)
  then have ok1: "tasks_ok w1" unfolding w1 by (rule tasks_ok_task_steps)
  define w2 where "w2 = w1\<lparr>best_move := Some v, recv_queue := q\<rparr>"
  have ok2: "tasks_ok w2" using ok1 by (simp add: w2_def tasks_ok_def)
  show ?thesis
  proof (cases "move_thread w2")
    case None
    with st wr rq have "oc = Raised AttributeError w2"
      by (simp add: stop_cmd_def w2_def)
    with ok2 show ?thesis by simp
  next
    case (Some t)
    with st wr rq obtain w3 where j: "join t w2 es1 = Some (w3, es')" and oc: "oc = report () w3 v"
      by (auto simp: stop_cmd_def w2_def Let_def split: option.splits)
    from join_steps[OF j] obtain p2 where "w3 = task_steps p2 w2" by blast
    with ok2 have "tasks_ok w3" by (simp add: tasks_ok_task_steps)
    then show ?thesis unfolding oc by (simp add: tasks_ok_cong[OF state_of_report])
  qed
qed

lemma position_cmd_tasks:
  "threads (state_of (position_cmd r w c)) = threads w"
  "move_thread (state_of (position_cmd r w c)) = move_thread w"
  by (auto simp: position_cmd_def Let_def split: sum.splits)

lemma process_command_cases:
  assumes "process_command r w command es = Some (oc, es')"
  shows "go_cmd w command es = Some (oc, es') \<or> stop_cmd w es = Some (oc, es') \<or>
         oc = position_cmd r w command \<or> oc = Returned () (uci_cmd w) \<or>
         oc = Returned () (send w ''readyok'') \<or>
         oc = Returned () (w\<lparr>position := ''startpos''\<rparr>) \<or> oc = Returned () w \<or>
         oc = Exited w"
proof (cases "command = ''uci'' \<or> command = ''isready'' \<or> startswith command ''position''")
  case True
  with assms show ?thesis unfolding process_command_def by (auto split: if_splits)
next
  case False
  with assms show ?thesis unfolding process_command_def by (simp split: if_splits)
qed

lemma process_command_ok:
  assumes ok: "tasks_ok w" and pc: "process_command r w command es = Some (oc, es')"
  shows "tasks_ok (state_of oc)"
proof -
  have same: "tasks_ok (state_of x)"
    if "threads (state_of x) = threads w" "move_thread (state_of x) = move_thread w"
    for x :: "unit outcome"
    using that ok by (simp add: tasks_ok_def)
  from process_command_cases[OF pc] show ?thesis
  proof (elim disjE)
    assume "go_cmd w command es = Some (oc, es')"
    with ok show ?thesis by (rule go_cmd_joined(1))
  next
    assume "stop_cmd w es = Some (oc, es')"
    with ok show ?thesis by (rule stop_cmd_ok)
  next
    assume pos: "oc = position_cmd r w command"
    show ?thesis unfolding pos by (rule same) (rule position_cmd_tasks)+
  next
    assume uci: "oc = Returned () (uci_cmd w)"
    show ?thesis unfolding uci by (rule same) (simp_all add: uci_cmd_def send_def)
  next
    assume ready: "oc = Returned () (send w ''readyok'')"
    show ?thesis unfolding ready by (rule same) (simp_all add: send_def)
  next
    assume new: "oc = Returned () (w\<lparr>position := ''startpos''\<rparr>)"
    show ?thesis unfolding new by (rule same) simp_all
  next
    assume skip: "oc = Returned () w"
    show ?thesis unfolding skip by (rule same) simp_all
  next
    assume quit: "oc = Exited w"
    show ?thesis unfolding quit by (rule same) simp_all
  qed
qed

lemma join_dead: "\<not> thread_alive w t \<Longrightarrow> join t w es = Some (w, es)"
  by (cases es) simp_all

lemma check_recv_tasks:
  "threads (state_of (check_recv w)) = threads w"
  "move_thread (state_of (check_recv w)) = move_thread w"
  by (simp_all add: check_recv_def state_of_report split: list.splits)

lemma check_best_move_ok:
  assumes ok: "tasks_ok w" and cb: "check_best_move w es = Some (oc, es')"
  shows "tasks_ok (state_of oc)"
proof (cases "\<exists>t. move_thread w = Some t \<and> thread_alive w t")
  case True
  with cb have "oc = Returned False w" by (auto simp: check_best_move_def)
  with ok show ?thesis by simp
next
  case False
  have dead: "\<not> thread_alive w u" for u
  proof
    assume a: "thread_alive w u"
    with ok have "move_thread w = Some u" by (rule tasks_ok_alive)
    with False a show False by simp
  qed
  have none: "tasks_ok w'" if "threads w' = threads w" for w'
    using that dead by (simp add: tasks_ok_def thread_alive_def)
  from False cb have "oc = check_recv w \<or> oc = check_recv (w\<lparr>move_thread := None\<rparr>)"
    by (auto simp: check_best_move_def join_dead split: option.splits)
  then show ?thesis by (auto intro!: none simp: check_recv_tasks)
qed

lemma exec_ok:
  assumes ok: "tasks_ok w" and ex: "exec r w c = Some w'"
  shows "tasks_ok w'"
proof (cases c)
  case (Pair k es)
  show ?thesis
  proof (cases k)
    case (Cmd command)
    with Pair ex obtain oc es' where
      pc: "process_command r w command es = Some (oc, es')"
      and w': "w' = task_steps es' (state_of oc)"
      by (auto simp: exec_def split: option.splits)
    from process_command_ok[OF ok pc] show ?thesis unfolding w' by (rule tasks_ok_task_steps)
  next
    case Poll
    with Pair ex obtain oc es' where
      cb: "check_best_move w es = Some (oc, es')"
      and w': "w' = task_steps es' (state_of oc)"
      by (auto simp: exec_def split: option.splits)
    from check_best_move_ok[OF ok cb] show ?thesis unfolding w' by (rule tasks_ok_task_steps)
  qed
qed

lemma run_ok: "tasks_ok w \<Longrightarrow> run r w cs = Some w' \<Longrightarrow> tasks_ok w'"
proof (induction cs arbitrary: w)
  case Nil
  then show ?case by simp
next
  case (Cons c cs)
  from Cons.prems(2) obtain w1 where e: "exec r w c = Some w1" and r: "run r w1 cs = Some w'"
    by (auto split: option.splits)
  from exec_ok[OF Cons.prems(1) e] r show ?case by (rule Cons.IH)
qed

lemma tasks_ok_init: "tasks_ok (uci_init a n)"
  by (simp add: tasks_ok_def uci_init_def)

lemma filter_at_most_one:
  "(\<And>i j. i < length xs \<Longrightarrow> j < length xs \<Longrightarrow> P (xs ! i) \<Longrightarrow> P (xs ! j) \<Longrightarrow> i = j) \<Longrightarrow>
     length (filter P xs) \<le> 1"
proof (induction xs)
  case Nil
  then show ?case by simp
next
  case (Cons x xs)
  have rest: "length (filter P xs) \<le> 1"
  proof (rule Cons.IH)
    fix i j
    assume "i < length xs" "j < length xs" "P (xs ! i)" "P (xs ! j)"
    with Cons.prems[of "Suc i" "Suc j"] show "i = j" by simp
  qed
  show ?case
  proof (cases "P x")
    case True
    have "\<not> P y" if "y \<in> set xs" for y
    proof
      assume "P y"
      from that obtain k where "k < length xs" "xs ! k = y" by (auto simp: in_set_conv_nth)
      with Cons.prems[of 0 "Suc k"] True \<open>P y\<close> show False by simp
    qed
    then have "filter P xs = []" by (simp add: filter_empty_conv)
    with True show ?thesis by simp
  next
    case False
    with rest show ?thesis by simp
  qed
qed

lemma filter_alive_le_one:
  assumes "tasks_ok w"
  shows "length (filter alive (threads w)) \<le> 1"
proof (rule filter_at_most_one)
  fix i j
  assume "i < length (threads w)" "j < length (threads w)"
    "alive (threads w ! i)" "alive (threads w ! j)"
  with assms have "thread_alive w i" "thread_alive w j"
    by (simp_all add: thread_alive_def)
  with assms have "move_thread w = Some i" "move_thread w = Some j"
    by (auto dest: tasks_ok_alive)
  then show "i = j" by simp
qed



section \<open>When a wait ends\<close>

lemma drain_empty: "drain xs = []"
  by (induction xs) simp_all

lemma join_take:
  assumes "join t w es = Some (w', es')"
  shows "\<exists>n \<le> length es. w' = task_steps (take n es) w \<and> es' = drop n es \<and>
           \<not> thread_alive w' t"
proof -
  from join_steps[OF assms] obtain pre where
    "es = pre @ es'" "w' = task_steps pre w" "\<not> thread_alive w' t" by blast
  then have "length pre \<le> length es \<and> w' = task_steps (take (length pre) es) w \<and>
             es' = drop (length pre) es \<and> \<not> thread_alive w' t" by simp
  then show ?thesis by blast
qed

lemma wait_recv_take:
  assumes "wait_recv w es = Some (w', es')"
  shows "\<exists>n \<le> length es. w' = task_steps (take n es) w \<and> es' = drop n es \<and>
           recv_queue w' \<noteq> []"
proof -
  from wait_recv_steps[OF assms] obtain pre where
    "es = pre @ es'" "w' = task_steps pre w" "recv_queue w' \<noteq> []" by blast
  then have "length pre \<le> length es \<and> w' = task_steps (take (length pre) es) w \<and>
             es' = drop (length pre) es \<and> recv_queue w' \<noteq> []" by simp
  then show ?thesis by blast
qed

lemma join_returns:
  "n \<le> length es \<Longrightarrow> \<not> thread_alive (task_steps (take n es) w) t \<Longrightarrow>
     \<exists>m \<le> n. join t w es = Some (task_steps (take m es) w, drop m es)"
proof (induction es arbitrary: w n)
  case Nil
  then show ?case by simp
next
  case (Cons e es)
  show ?case
  proof (cases "thread_alive w t")
    case False
    then have "join t w (e # es) = Some (task_steps (take 0 (e # es)) w, drop 0 (e # es))"
      by simp
    then show ?thesis by blast
  next
    case True
    with Cons.prems(2) obtain k where n: "n = Suc k" by (cases n) auto
    with Cons.prems have "k \<le> length es"
      "\<not> thread_alive (task_steps (take k es) (task_step e w)) t" by simp_all
    from Cons.IH[OF this] obtain m where m: "m \<le> k"
      "join t (task_step e w) es = Some (task_steps (take m es) (task_step e w), drop m es)"
      by blast
    with True n have "Suc m \<le> n \<and>
      join t w (e # es) = Some (task_steps (take (Suc m) (e # es)) w, drop (Suc m) (e # es))"
      by simp
    then show ?thesis by blast
  qed
qed

lemma wait_recv_returns:
  "n \<le> length es \<Longrightarrow> recv_queue (task_steps (take n es) w) \<noteq> [] \<Longrightarrow>
     \<exists>m \<le> n. wait_recv w es = Some (task_steps (take m es) w, drop m es)"
proof (induction es arbitrary: w n)
  case Nil
  then show ?case by simp
next
  case (Cons e es)
  show ?case
  proof (cases "recv_queue w = []")
    case False
    then have "wait_recv w (e # es) = Some (task_steps (take 0 (e # es)) w, drop 0 (e # es))"
      by simp
    then show ?thesis by blast
  next
    case True
    with Cons.prems(2) obtain k where n: "n = Suc k" by (cases n) auto
    with Cons.prems have "k \<le> length es"
      "recv_queue (task_steps (take k es) (task_step e w)) \<noteq> []" by simp_all
    from Cons.IH[OF this] obtain m where m: "m \<le> k"
      "wait_recv (task_step e w) es =
         Some (task_steps (take m es) (task_step e w), drop m es)"
      by blast
    with True n have "Suc m \<le> n \<and>
      wait_recv w (e # es) =
        Some (task_steps (take (Suc m) (e # es)) w, drop (Suc m) (e # es))"
      by simp
    then show ?thesis by blast
  qed
qed

lemma join_iff: "(join t w es \<noteq> None) = dies_in w t es"
proof
  assume "join t w es \<noteq> None"
  then obtain w' es' where "join t w es = Some (w', es')" by auto
  from join_take[OF this] show "dies_in w t es" unfolding dies_in_def by blast
next
  assume "dies_in w t es"
  then obtain n where "n \<le> length es" "\<not> thread_alive (task_steps (take n es) w) t"
    unfolding dies_in_def by blast
  from join_returns[OF this] show "join t w es \<noteq> None" by auto
qed

lemma threads_task_step_cong:
  "threads w = threads w' \<Longrightarrow> threads (task_step e w) = threads (task_step e w')"
  by (cases e) (auto simp: thread_alive_def split: action.splits list.splits)

lemma threads_task_steps_cong:
  "threads w = threads w' \<Longrightarrow> threads (task_steps es w) = threads (task_steps es w')"
proof (induction es arbitrary: w w')
  case Nil
  then show ?case by simp
next
  case (Cons e es)
  from Cons.prems have "threads (task_step e w) = threads (task_step e w')"
    by (rule threads_task_step_cong)
  from Cons.IH[OF this] show ?case by simp
qed

lemma recv_task_step_mono: "recv_queue w \<noteq> [] \<Longrightarrow> recv_queue (task_step e w) \<noteq> []"
  by (cases e) (auto split: action.splits list.splits)

lemma recv_task_steps_mono: "recv_queue w \<noteq> [] \<Longrightarrow> recv_queue (task_steps es w) \<noteq> []"
  by (induction es arbitrary: w) (simp_all add: recv_task_step_mono del: task_step.simps)

lemma thread_alive_cong: "threads w = threads w' \<Longrightarrow> thread_alive w t = thread_alive w' t"
  by (simp add: thread_alive_def)

section \<open>At most one search task\<close>

lemma taken_go_start: "taken (state_of (go_start w command)) = taken w"
  by (auto simp: go_start_def Let_def split: sum.splits prod.splits)

lemma go_cmd_cancel:
  assumes "go_cmd w command es = Some (oc, es')" and "move_thread w = Some t"
  shows "\<exists>pre. es = pre @ es' \<and> \<not> thread_alive (task_steps pre (cancelled w)) t \<and>
           oc = go_start ((task_steps pre (cancelled w))\<lparr>move_thread := None\<rparr>) command \<and>
           taken (state_of oc) = taken (task_steps pre (cancelled w))"
proof -
  from assms obtain w1 where j: "join t (cancelled w) es = Some (w1, es')"
    and oc: "oc = go_start (w1\<lparr>move_thread := None\<rparr>) command"
    by (auto simp: go_cmd_def cancelled_def split: option.splits)
  from join_steps[OF j] obtain pre where
    "es = pre @ es'" "w1 = task_steps pre (cancelled w)" "\<not> thread_alive w1 t" by blast
  with oc have "es = pre @ es' \<and> \<not> thread_alive (task_steps pre (cancelled w)) t \<and>
           oc = go_start ((task_steps pre (cancelled w))\<lparr>move_thread := None\<rparr>) command \<and>
           taken (state_of oc) = taken (task_steps pre (cancelled w))"
    by (simp add: taken_go_start)
  then show ?thesis by blast
qed

lemma go_cmd_iff:
  assumes "move_thread w = Some t"
  shows "(go_cmd w command es \<noteq> None) = dies_in (cancelled w) t es"
proof -
  have "(go_cmd w command es \<noteq> None) = (join t (cancelled w) es \<noteq> None)"
    using assms by (simp add: go_cmd_def cancelled_def split: option.splits)
  also have "\<dots> = dies_in (cancelled w) t es" by (rule join_iff)
  finally show ?thesis .
qed

lemma go_cmd_take:
  assumes "move_thread w = Some t" and "thread_alive w t" and "send_queue w = []"
  shows "\<exists>oc. go_cmd w command ((t, Take) # (t, Exit) # es) = Some (oc, es) \<and>
           taken (state_of oc) = taken w @ [(t, ''stop'')]"
proof -
  define w2 where "w2 = w\<lparr>send_queue := [], taken := taken w @ [(t, ''stop'')],
                         threads := (threads w)[t := (threads w ! t)\<lparr>alive := False\<rparr>]\<rparr>"
  have dead: "\<not> thread_alive w2 t" using assms(2) by (simp add: w2_def thread_alive_def)
  have "join t (w\<lparr>send_queue := send_queue w @ [''stop'']\<rparr>) ((t, Take) # (t, Exit) # es) =
          join t w2 es"
    using assms(2,3) by (simp add: thread_alive_def w2_def)
  also have "\<dots> = Some (w2, es)" using dead by (rule join_dead)
  finally have "go_cmd w command ((t, Take) # (t, Exit) # es) =
                  Some (go_start (w2\<lparr>move_thread := None\<rparr>) command, es)"
    using assms(1) by (simp add: go_cmd_def)
  moreover have "taken (state_of (go_start (w2\<lparr>move_thread := None\<rparr>) command)) =
                   taken w @ [(t, ''stop'')]"
    by (simp add: taken_go_start w2_def)
  ultimately show ?thesis by blast
qed

text \<open>
  C1. In every state that a session reaches from a fresh \<open>UCI\<close> object, at most one
  started thread is alive. Whenever the \<open>go\<close> branch ends in such a state, every thread
  started before it is dead and at most one thread is alive afterwards. If a handle is
  set, the call first puts \<open>"stop"\<close> on the control queue and then waits for the thread
  of the handle: it ends exactly for the schedules in which that thread returns, the
  thread was seen dead in a state that the search threads reached from the state with
  \<open>"stop"\<close> on the queue, the new thread is started from that state, and what the
  threads took off the control queue during the wait is what they took from that state.
  A task that is alive and finds the control queue empty before the call takes
  \<open>"stop"\<close> when it takes a message during the wait. While a call waits, the state
  changes only by what the search threads do, and after any such steps, from any state
  with the same threads, at most one thread is alive as well.
\<close>

theorem at_most_one_task_active:
  assumes "run r (uci_init a n) cs = Some w"
  shows "length (filter alive (threads w)) \<le> 1 \<and>
         (\<forall>command es oc es'. go_cmd w command es = Some (oc, es') \<longrightarrow>
            (\<forall>t < length (threads w). \<not> alive (threads (state_of oc) ! t)) \<and>
            length (threads w) \<le> length (threads (state_of oc)) \<and>
            length (filter alive (threads (state_of oc))) \<le> 1 \<and>
            (\<forall>t. move_thread w = Some t \<longrightarrow>
               (\<exists>pre. es = pre @ es' \<and>
                  \<not> thread_alive
                      (task_steps pre (w\<lparr>send_queue := send_queue w @ [''stop'']\<rparr>)) t))) \<and>
         (\<forall>command es oc es' t.
            go_cmd w command es = Some (oc, es') \<and> move_thread w = Some t \<longrightarrow>
            (\<exists>pre. es = pre @ es' \<and> \<not> thread_alive (task_steps pre (cancelled w)) t \<and>
               oc = go_start ((task_steps pre (cancelled w))\<lparr>move_thread := None\<rparr>) command \<and>
               taken (state_of oc) = taken (task_steps pre (cancelled w)))) \<and>
         (\<forall>command es t. move_thread w = Some t \<longrightarrow>
            (go_cmd w command es \<noteq> None) = dies_in (cancelled w) t es) \<and>
         (\<forall>command es t. move_thread w = Some t \<and> thread_alive w t \<and> send_queue w = [] \<longrightarrow>
            (\<exists>oc. go_cmd w command ((t, Take) # (t, Exit) # es) = Some (oc, es) \<and>
               taken (state_of oc) = taken w @ [(t, ''stop'')])) \<and>
         (\<forall>sched w'. threads w' = threads w \<longrightarrow>
            length (filter alive (threads (task_steps sched w'))) \<le> 1)"
proof -
  have ok: "tasks_ok w" using tasks_ok_init assms by (rule run_ok)
  have go: "(\<forall>t < length (threads w). \<not> alive (threads (state_of oc) ! t)) \<and>
            length (threads w) \<le> length (threads (state_of oc)) \<and>
            length (filter alive (threads (state_of oc))) \<le> 1 \<and>
            (\<forall>t. move_thread w = Some t \<longrightarrow>
               (\<exists>pre. es = pre @ es' \<and>
                  \<not> thread_alive
                      (task_steps pre (w\<lparr>send_queue := send_queue w @ [''stop'']\<rparr>)) t))"
    if g: "go_cmd w command es = Some (oc, es')" for command es oc es'
  proof (intro conjI allI impI)
    show "length (filter alive (threads (state_of oc))) \<le> 1"
      using go_cmd_joined(1)[OF ok g] by (rule filter_alive_le_one)
    show len: "length (threads w) \<le> length (threads (state_of oc))"
      using g
      by (auto simp: go_cmd_def go_start_def Let_def task_steps_frame
               split: option.splits sum.splits prod.splits dest!: join_steps)
    show "\<not> alive (threads (state_of oc) ! t)" if "t < length (threads w)" for t
      using go_cmd_joined(2)[OF ok g that] that len by (simp add: thread_alive_def)
    show "\<exists>pre. es = pre @ es' \<and>
            \<not> thread_alive (task_steps pre (w\<lparr>send_queue := send_queue w @ [''stop'']\<rparr>)) t"
      if "move_thread w = Some t" for t
      using g that by (auto simp: go_cmd_def split: option.splits dest!: join_steps)
  qed
  from filter_alive_le_one[OF ok] go have first: "length (filter alive (threads w)) \<le> 1 \<and>
         (\<forall>command es oc es'. go_cmd w command es = Some (oc, es') \<longrightarrow>
            (\<forall>t < length (threads w). \<not> alive (threads (state_of oc) ! t)) \<and>
            length (threads w) \<le> length (threads (state_of oc)) \<and>
            length (filter alive (threads (state_of oc))) \<le> 1 \<and>
            (\<forall>t. move_thread w = Some t \<longrightarrow>
               (\<exists>pre. es = pre @ es' \<and>
                  \<not> thread_alive
                      (task_steps pre (w\<lparr>send_queue := send_queue w @ [''stop'']\<rparr>)) t)))"
    by blast
  have second: "\<exists>pre. es = pre @ es' \<and> \<not> thread_alive (task_steps pre (cancelled w)) t \<and>
               oc = go_start ((task_steps pre (cancelled w))\<lparr>move_thread := None\<rparr>) command \<and>
               taken (state_of oc) = taken (task_steps pre (cancelled w))"
    if "go_cmd w command es = Some (oc, es') \<and> move_thread w = Some t" for command es oc es' t
    using that go_cmd_cancel by blast
  have third: "(go_cmd w command es \<noteq> None) = dies_in (cancelled w) t es"
    if "move_thread w = Some t" for command es t
    using that by (rule go_cmd_iff)
  have fourth: "\<exists>oc. go_cmd w command ((t, Take) # (t, Exit) # es) = Some (oc, es) \<and>
               taken (state_of oc) = taken w @ [(t, ''stop'')]"
    if "move_thread w = Some t \<and> thread_alive w t \<and> send_queue w = []" for command es t
    using that go_cmd_take by blast
  have fifth: "length (filter alive (threads (task_steps sched w'))) \<le> 1"
    if "threads w' = threads w" for sched w'
  proof -
    have "tasks_ok (task_steps sched w)" using ok by (rule tasks_ok_task_steps)
    then have "length (filter alive (threads (task_steps sched w))) \<le> 1"
      by (rule filter_alive_le_one)
    with threads_task_steps_cong[OF that, of sched] show ?thesis by simp
  qed
  from first second third fourth fifth show ?thesis by blast
qed

theorem at_most_one_task_active_witness:
  "run stub_rules (uci_init ''a'' ''e'')
     [(Cmd ''go movetime 5'', []), (Cmd ''go depth 3'', [(0, Take), (0, Exit)])] =
   Some \<lparr>best_move = None, position = ''startpos'', time_limit = 0, send_queue = [],
         recv_queue = [], max_depth = 0, author = ''a'', engine_name = ''e'',
         move_thread = Some 1,
         threads = [\<lparr>alive = False, t_position = ''startpos'', t_time_limit = 5, t_max_depth = 0\<rparr>,
                    \<lparr>alive = True, t_position = ''startpos'', t_time_limit = 0, t_max_depth = 3\<rparr>],
         taken = [(0, ''stop'')], stdout = []\<rparr> \<and>
   length (filter alive
     [\<lparr>alive = False, t_position = ''startpos'', t_time_limit = 5, t_max_depth = 0\<rparr>,
      \<lparr>alive = True, t_position = ''startpos'', t_time_limit = 0, t_max_depth = 3\<rparr>]) \<le> 1"
proof -
  have h: "run stub_rules (uci_init ''a'' ''e'')
     [(Cmd ''go movetime 5'', []), (Cmd ''go depth 3'', [(0, Take), (0, Exit)])] =
   Some \<lparr>best_move = None, position = ''startpos'', time_limit = 0, send_queue = [],
         recv_queue = [], max_depth = 0, author = ''a'', engine_name = ''e'',
         move_thread = Some 1,
         threads = [\<lparr>alive = False, t_position = ''startpos'', t_time_limit = 5, t_max_depth = 0\<rparr>,
                    \<lparr>alive = True, t_position = ''startpos'', t_time_limit = 0, t_max_depth = 3\<rparr>],
         taken = [(0, ''stop'')], stdout = []\<rparr>"
    by code_simp
  from at_most_one_task_active[OF h] h show ?thesis by simp
qed

section \<open>Stop without a search task\<close>

lemma task_step_no_alive: "(\<And>t. \<not> thread_alive w t) \<Longrightarrow> task_step e w = w"
  by (cases e) simp

lemma wait_recv_no_alive:
  "(\<And>t. \<not> thread_alive w t) \<Longrightarrow> recv_queue w = [] \<Longrightarrow> wait_recv w es = None"
  by (induction es) (simp_all add: task_step_no_alive)

lemma no_handle_no_task:
  assumes "run r (uci_init a n) cs = Some w" and "move_thread w = None"
  shows "\<forall>t < length (threads w). \<not> alive (threads w ! t)"
proof -
  have "tasks_ok w" using tasks_ok_init assms(1) by (rule run_ok)
  with assms(2) show ?thesis by (simp add: tasks_ok_def)
qed

text \<open>
  C10. In a state in which no started thread is alive and the result queue is empty,
  \<open>stop\<close> does not return, whatever the search threads are scheduled to do: nothing
  ever arrives on the result queue. A fresh session is such a state, and so is every
  state with an empty result queue that a session reaches with no handle set
  (\<open>no_handle_no_task\<close>), or with a handle that refers to a thread that has returned.
\<close>

theorem stop_without_task_never_returns:
  assumes "\<forall>t < length (threads w). \<not> alive (threads w ! t)" and "recv_queue w = []"
  shows "process_command r w ''stop'' es = None"
proof -
  have dead: "\<not> thread_alive w t" for t
    using assms(1) by (simp add: thread_alive_def)
  have "wait_recv (w\<lparr>send_queue := send_queue w @ [''stop'']\<rparr>) es = None"
    by (rule wait_recv_no_alive) (simp_all add: dead assms(2))
  then have "stop_cmd w es = None" by (simp add: stop_cmd_def)
  then show ?thesis by (simp add: process_command_def)
qed

theorem stop_without_task_never_returns_witness:
  "threads (uci_init ''a'' ''e'') = [] \<and> recv_queue (uci_init ''a'' ''e'') = [] \<and>
   process_command stub_rules (uci_init ''a'' ''e'') ''stop''
     [(0, Put (PStr ''e2e4'')), (0, Exit)] = None \<and>
   process_command stub_rules
     (uci_init ''a'' ''e''
        \<lparr>move_thread := Some 0,
         threads := [\<lparr>alive = False, t_position = ''startpos'', t_time_limit = 0,
                      t_max_depth = 0\<rparr>]\<rparr>)
     ''stop'' [(0, Put (PStr ''e2e4'')), (0, Exit)] = None"
proof -
  have h1: "\<forall>t < length (threads (uci_init ''a'' ''e'')). \<not> alive (threads (uci_init ''a'' ''e'') ! t)"
    by (simp add: uci_init_def)
  have h2: "recv_queue (uci_init ''a'' ''e'') = []" by (simp add: uci_init_def)
  define w1 where "w1 = uci_init ''a'' ''e''
        \<lparr>move_thread := Some 0,
         threads := [\<lparr>alive = False, t_position = ''startpos'', t_time_limit = 0,
                      t_max_depth = 0\<rparr>]\<rparr>"
  have k1: "\<forall>t < length (threads w1). \<not> alive (threads w1 ! t)" by (simp add: w1_def)
  have k2: "recv_queue w1 = []" by (simp add: w1_def uci_init_def)
  from stop_without_task_never_returns
         [OF h1 h2, where r = stub_rules and es = "[(0, Put (PStr ''e2e4'')), (0, Exit)]"]
       stop_without_task_never_returns
         [OF k1 k2, where r = stub_rules and es = "[(0, Put (PStr ''e2e4'')), (0, Exit)]"]
       h2
  show ?thesis unfolding w1_def by (simp add: uci_init_def)
qed

section \<open>Lines that are not commands\<close>

text \<open>
  C8, as stated, fails: \<open>go movetime\<close> has no number after the flag, and reading
  \<open>args[i + 1]\<close> raises \<open>IndexError\<close>.
\<close>

theorem malformed_go_raises:
  "process_command stub_rules (uci_init ''a'' ''e'') ''go movetime'' [] =
     Some (Raised IndexError (uci_init ''a'' ''e''), [])"
  by (simp add: process_command_def go_cmd_def go_start_def uci_init_def)

text \<open>
  C8, amended. A line that is neither \<open>uci\<close> nor \<open>isready\<close> and does not begin with
  \<open>position\<close>, \<open>go\<close>, \<open>stop\<close>, \<open>ucinewgame\<close> or \<open>quit\<close> (every \<open>setoption\<close> line is one) is
  ignored: the call returns, prints nothing, leaves the state as it was and waits for
  nothing.
\<close>

theorem unrecognized_line_ignored:
  assumes "command \<noteq> ''uci''" and "command \<noteq> ''isready''"
    and "\<not> startswith command ''position''" and "\<not> startswith command ''go''"
    and "\<not> startswith command ''stop''" and "\<not> startswith command ''ucinewgame''"
    and "\<not> startswith command ''quit''"
  shows "process_command r w command es = Some (Returned () w, es)"
  using assms by (simp add: process_command_def)

theorem unrecognized_line_ignored_witness:
  "process_command stub_rules (uci_init ''a'' ''e'') ''setoption name Hash value 128'' [] =
     Some (Returned () (uci_init ''a'' ''e''), [])"
  by (rule unrecognized_line_ignored) simp_all

section \<open>The position command\<close>

text \<open>
  C4. On \<open>position startpos moves e2e4 e7e5\<close> the code looks for the word \<open>moves\<close> at
  \<open>args[8]\<close>, where it stands only after \<open>fen\<close> and six fields; the line has five
  words, so no move is parsed or pushed. The board is built from the literal text
  \<open>startpos\<close>: either that raises, or the descriptor of that board is stored.
\<close>

theorem position_startpos_ignores_moves:
  "process_command r w ''position startpos moves e2e4 e7e5'' es =
     Some (case Board r ''startpos'' of
             Inl e \<Rightarrow> Raised e (w\<lparr>position := ''startpos''\<rparr>)
           | Inr b \<Rightarrow> Returned () (w\<lparr>position := fen r b\<rparr>), es)"
  by (simp add: process_command_def position_cmd_def split: sum.splits)

section \<open>Search limits\<close>

lemma py_int_keywords:
  "py_int ''movetime'' = Inl ValueError" "py_int ''depth'' = Inl ValueError"
  "py_int ''infinite'' = Inl ValueError"
  by (simp_all add: py_int_def strip_def is_space_def unsigned_def is_digit_def)

lemma split_sp_word:
  "CHR '' '' \<notin> set x \<Longrightarrow> split_sp (x @ CHR '' '' # rest) = x # split_sp rest"
  by (induction x) auto

lemma split_sp_nospace: "CHR '' '' \<notin> set s \<Longrightarrow> split_sp s = [s]"
  by (induction s) auto

lemma split_sp_join_sp:
  "ws \<noteq> [] \<Longrightarrow> \<forall>x \<in> set ws. CHR '' '' \<notin> set x \<Longrightarrow> split_sp (join_sp ws) = ws"
proof (induction ws rule: join_sp.induct)
  case 1
  then show ?case by simp
next
  case (2 x)
  then show ?case by (simp add: split_sp_nospace)
next
  case (3 x y ys)
  then have "split_sp (join_sp (y # ys)) = y # ys" by simp
  with 3 show ?case by (simp add: split_sp_word)
qed

lemma flag_words_nospace: "flag_ok f \<Longrightarrow> \<forall>x \<in> set (flag_words f). CHR '' '' \<notin> set x"
  by (cases f) auto

lemma go_args_flags:
  "\<forall>f \<in> set fs. flag_ok f \<Longrightarrow>
     go_args (concat (map flag_words fs)) tlim md = Inr (foldl spec_set_limit (tlim, md) fs)"
proof (induction fs arbitrary: tlim md)
  case Nil
  then show ?case by simp
next
  case (Cons f fs)
  then have ok: "flag_ok f" and rest: "\<forall>f \<in> set fs. flag_ok f" by simp_all
  note IH = Cons.IH[OF rest]
  show ?case
  proof (cases f)
    case (Movetime s)
    with ok obtain v where v: "py_int s = Inr v" by (cases "py_int s") auto
    then have "s \<noteq> ''movetime''" "s \<noteq> ''depth''" "s \<noteq> ''infinite''"
      using py_int_keywords by auto
    with v Movetime IH show ?thesis by simp
  next
    case (Depth s)
    with ok obtain v where v: "py_int s = Inr v" by (cases "py_int s") auto
    then have "s \<noteq> ''movetime''" "s \<noteq> ''depth''" "s \<noteq> ''infinite''"
      using py_int_keywords by auto
    with v Depth IH show ?thesis by simp
  next
    case Infinite
    with IH show ?thesis by simp
  next
    case (Word s)
    with ok IH show ?thesis by simp
  qed
qed

lemma go_command_words:
  assumes "\<forall>f \<in> set fs. flag_ok f"
  shows "tl (split_sp (join_sp (''go'' # concat (map flag_words fs)))) =
           concat (map flag_words fs)"
proof -
  have "\<forall>x \<in> set (''go'' # concat (map flag_words fs)). CHR '' '' \<notin> set x"
    using assms flag_words_nospace by auto
  then have "split_sp (join_sp (''go'' # concat (map flag_words fs))) =
               ''go'' # concat (map flag_words fs)"
    by (intro split_sp_join_sp) simp_all
  then show ?thesis by simp
qed

lemma process_go: "process_command r w (join_sp (''go'' # ws)) es = go_cmd w (join_sp (''go'' # ws)) es"
proof (cases ws)
  case Nil
  then show ?thesis by (simp add: process_command_def)
next
  case (Cons x xs)
  then show ?thesis by (simp add: process_command_def)
qed

lemma go_start_thread:
  assumes "go_start w command = Returned () w'"
  shows "\<exists>tlim md. go_args (tl (split_sp command)) 0 0 = Inr (tlim, md) \<and>
           move_thread w' = Some (length (threads w)) \<and>
           threads w' = threads w @
             [\<lparr>alive = True, t_position = position w, t_time_limit = tlim, t_max_depth = md\<rparr>]"
  using assms by (auto simp: go_start_def Let_def split: sum.splits prod.splits)

lemma go_start_returns:
  assumes "go_args (tl (split_sp command)) 0 0 = Inr (tlim, md)"
  shows "go_start w command =
           Returned ()
             (w\<lparr>send_queue := [], recv_queue := [],
                threads := threads w @
                  [\<lparr>alive = True, t_position = position w, t_time_limit = tlim,
                    t_max_depth = md\<rparr>],
                move_thread := Some (length (threads w))\<rparr>)"
  using assms by (simp add: go_start_def Let_def drain_empty)

lemma go_cmd_thread:
  assumes "go_cmd w command es = Some (oc, es')"
    and "go_args (tl (split_sp command)) 0 0 = Inr (tlim, md)"
  shows "oc = Returned () (state_of oc) \<and>
         move_thread (state_of oc) = Some (length (threads w)) \<and>
         length (threads (state_of oc)) = Suc (length (threads w)) \<and>
         threads (state_of oc) ! length (threads w) =
           \<lparr>alive = True, t_position = position w, t_time_limit = tlim, t_max_depth = md\<rparr>"
proof -
  obtain w1 where oc: "oc = go_start w1 command"
    and len: "length (threads w1) = length (threads w)" and pos: "position w1 = position w"
  proof (cases "move_thread w")
    case None
    with assms(1) have "oc = go_start w command" by (simp add: go_cmd_def)
    then show ?thesis by (rule that) simp_all
  next
    case (Some t)
    with assms(1) obtain w0 where
      j: "join t (w\<lparr>send_queue := send_queue w @ [''stop'']\<rparr>) es = Some (w0, es')"
      and g: "oc = go_start (w0\<lparr>move_thread := None\<rparr>) command"
      by (auto simp: go_cmd_def split: option.splits)
    from join_steps[OF j] obtain pre where
      "w0 = task_steps pre (w\<lparr>send_queue := send_queue w @ [''stop'']\<rparr>)" by blast
    then have "length (threads (w0\<lparr>move_thread := None\<rparr>)) = length (threads w)"
      "position (w0\<lparr>move_thread := None\<rparr>) = position w"
      by (simp_all add: task_steps_frame)
    with g show ?thesis by (rule that)
  qed
  show ?thesis unfolding oc go_start_returns[OF assms(2)]
    by (simp add: len pos nth_append)
qed

text \<open>
  C9, as stated, fails: \<open>go infinite\<close> starts the search with the time limit 999999999,
  the same thread that \<open>go movetime 999999999\<close> starts, so the task is given a bounded
  time budget.
\<close>

theorem go_infinite_is_bounded:
  "process_command stub_rules (uci_init ''a'' ''e'') ''go infinite'' [] =
     Some (Returned ()
            (uci_init ''a'' ''e''
               \<lparr>threads := [\<lparr>alive = True, t_position = ''startpos'',
                             t_time_limit = 999999999, t_max_depth = 0\<rparr>],
                move_thread := Some 0\<rparr>), []) \<and>
   process_command stub_rules (uci_init ''a'' ''e'') ''go movetime 999999999'' [] =
     Some (Returned ()
            (uci_init ''a'' ''e''
               \<lparr>threads := [\<lparr>alive = True, t_position = ''startpos'',
                             t_time_limit = 999999999, t_max_depth = 0\<rparr>],
                move_thread := Some 0\<rparr>), [])"
  by (simp add: process_command_def go_cmd_def go_start_def uci_init_def py_int_def strip_def
                is_space_def unsigned_def is_digit_def digit_val_def)

text \<open>
  C9, amended. Let the words after \<open>go\<close> be any sequence of \<open>movetime s\<close>, \<open>depth s\<close> (with
  \<open>s\<close> a word that \<open>int\<close> accepts), \<open>infinite\<close> and other words. The loop of the \<open>go\<close>
  branch computes from them exactly the limits of \<open>spec_limits\<close>: read from left to right
  from 0 and 0, \<open>movetime\<close> sets the time limit, \<open>depth\<close> the depth and \<open>infinite\<close> the time
  limit 999999999. Whenever the call ends it has returned, the handle refers to the
  newest thread, and that thread was started with the session's position and these
  limits; no other field of the session enters. The call ends at once when no handle is
  set, and otherwise exactly when the thread of the handle returns during the wait.
\<close>

theorem go_limits_from_flags:
  assumes "\<forall>f \<in> set fs. flag_ok f"
    and "command = join_sp (''go'' # concat (map flag_words fs))"
  shows "go_args (tl (split_sp command)) 0 0 = Inr (spec_limits fs) \<and>
         (\<forall>oc es'. process_command r w command es = Some (oc, es') \<longrightarrow>
            oc = Returned () (state_of oc) \<and>
            move_thread (state_of oc) = Some (length (threads w)) \<and>
            length (threads (state_of oc)) = Suc (length (threads w)) \<and>
            threads (state_of oc) ! length (threads w) =
              \<lparr>alive = True, t_position = position w, t_time_limit = fst (spec_limits fs),
                t_max_depth = snd (spec_limits fs)\<rparr>) \<and>
         (move_thread w = None \<longrightarrow>
            process_command r w command es =
              Some (Returned ()
                     (w\<lparr>send_queue := [], recv_queue := [],
                        threads := threads w @
                          [\<lparr>alive = True, t_position = position w,
                            t_time_limit = fst (spec_limits fs),
                            t_max_depth = snd (spec_limits fs)\<rparr>],
                        move_thread := Some (length (threads w))\<rparr>), es)) \<and>
         (\<forall>t. move_thread w = Some t \<longrightarrow>
            (process_command r w command es \<noteq> None) = dies_in (cancelled w) t es)"
proof -
  have args: "go_args (tl (split_sp command)) 0 0 = Inr (spec_limits fs)"
    unfolding assms(2) go_command_words[OF assms(1)] spec_limits_def
    by (rule go_args_flags[OF assms(1)])
  then have args': "go_args (tl (split_sp command)) 0 0 =
                      Inr (fst (spec_limits fs), snd (spec_limits fs))" by simp
  have pc: "process_command r w command es = go_cmd w command es"
    unfolding assms(2) by (rule process_go)
  have a: "oc = Returned () (state_of oc) \<and>
            move_thread (state_of oc) = Some (length (threads w)) \<and>
            length (threads (state_of oc)) = Suc (length (threads w)) \<and>
            threads (state_of oc) ! length (threads w) =
              \<lparr>alive = True, t_position = position w, t_time_limit = fst (spec_limits fs),
                t_max_depth = snd (spec_limits fs)\<rparr>"
    if "process_command r w command es = Some (oc, es')" for oc es'
    using that go_cmd_thread[OF _ args'] by (simp add: pc)
  have b: "process_command r w command es =
              Some (Returned ()
                     (w\<lparr>send_queue := [], recv_queue := [],
                        threads := threads w @
                          [\<lparr>alive = True, t_position = position w,
                            t_time_limit = fst (spec_limits fs),
                            t_max_depth = snd (spec_limits fs)\<rparr>],
                        move_thread := Some (length (threads w))\<rparr>), es)"
    if "move_thread w = None"
    using that by (simp add: pc go_cmd_def go_start_returns[OF args'])
  have c: "(process_command r w command es \<noteq> None) = dies_in (cancelled w) t es"
    if "move_thread w = Some t" for t
  proof -
    have "(go_cmd w command es \<noteq> None) = (join t (cancelled w) es \<noteq> None)"
      using that by (simp add: go_cmd_def cancelled_def split: option.splits)
    also have "\<dots> = dies_in (cancelled w) t es" by (rule join_iff)
    finally show ?thesis unfolding pc .
  qed
  from args a b c show ?thesis by blast
qed

theorem go_limits_from_flags_witness:
  "flag_ok (Movetime ''100'') \<and> flag_ok (Depth ''5'') \<and> flag_ok (Word ''wtime'') \<and>
   flag_ok (Word ''300000'') \<and>
   ''go movetime 100 depth 5 wtime 300000'' =
     join_sp (''go'' # concat (map flag_words
       [Movetime ''100'', Depth ''5'', Word ''wtime'', Word ''300000''])) \<and>
   spec_limits [Movetime ''100'', Depth ''5'', Word ''wtime'', Word ''300000''] = (100, 5) \<and>
   process_command stub_rules (uci_init ''a'' ''e''\<lparr>time_limit := 7, max_depth := 9\<rparr>)
     ''go movetime 100 depth 5 wtime 300000'' [] =
     Some (Returned ()
            (uci_init ''a'' ''e''
               \<lparr>time_limit := 7, max_depth := 9,
                threads := [\<lparr>alive = True, t_position = ''startpos'', t_time_limit = 100,
                             t_max_depth = 5\<rparr>],
                move_thread := Some 0\<rparr>), [])"
proof -
  define fs where "fs = [Movetime ''100'', Depth ''5'', Word ''wtime'', Word ''300000'']"
  have i: "py_int ''100'' = Inr 100" "py_int ''5'' = Inr 5"
    by (simp_all add: py_int_def strip_def is_space_def unsigned_def is_digit_def digit_val_def)
  have ok: "flag_ok (Movetime ''100'')" "flag_ok (Depth ''5'')" "flag_ok (Word ''wtime'')"
    "flag_ok (Word ''300000'')"
    by (simp_all add: i)
  then have h1: "\<forall>f \<in> set fs. flag_ok f" by (simp add: fs_def)
  have h2: "''go movetime 100 depth 5 wtime 300000'' =
              join_sp (''go'' # concat (map flag_words fs))"
    by (simp add: fs_def)
  have l: "spec_limits fs = (100, 5)" by (simp add: fs_def spec_limits_def i)
  have n: "move_thread (uci_init ''a'' ''e''\<lparr>time_limit := 7, max_depth := 9\<rparr>) = None"
    by (simp add: uci_init_def)
  from go_limits_from_flags
         [OF h1 h2, of stub_rules "uci_init ''a'' ''e''\<lparr>time_limit := 7, max_depth := 9\<rparr>" "[]"] n
  have "process_command stub_rules (uci_init ''a'' ''e''\<lparr>time_limit := 7, max_depth := 9\<rparr>)
     ''go movetime 100 depth 5 wtime 300000'' [] =
     Some (Returned ()
            (uci_init ''a'' ''e''
               \<lparr>time_limit := 7, max_depth := 9, send_queue := [], recv_queue := [],
                threads := threads (uci_init ''a'' ''e''\<lparr>time_limit := 7, max_depth := 9\<rparr>) @
                  [\<lparr>alive = True,
                    t_position = position (uci_init ''a'' ''e''\<lparr>time_limit := 7, max_depth := 9\<rparr>),
                    t_time_limit = fst (spec_limits fs), t_max_depth = snd (spec_limits fs)\<rparr>],
                move_thread :=
                  Some (length (threads (uci_init ''a'' ''e''\<lparr>time_limit := 7, max_depth := 9\<rparr>)))\<rparr>),
           [])"
    by blast
  then have "process_command stub_rules (uci_init ''a'' ''e''\<lparr>time_limit := 7, max_depth := 9\<rparr>)
     ''go movetime 100 depth 5 wtime 300000'' [] =
     Some (Returned ()
            (uci_init ''a'' ''e''
               \<lparr>time_limit := 7, max_depth := 9,
                threads := [\<lparr>alive = True, t_position = ''startpos'', t_time_limit = 100,
                             t_max_depth = 5\<rparr>],
                move_thread := Some 0\<rparr>), [])"
    by (simp add: l uci_init_def)
  with ok h2 l show ?thesis unfolding fs_def by simp
qed

section \<open>A position command that fails\<close>





section \<open>Stop with a search task\<close>

lemma report_frame:
  "best_move (state_of (report x w v)) = best_move w"
  "recv_queue (state_of (report x w v)) = recv_queue w"
  "thread_alive (state_of (report x w v)) t = thread_alive w t"
  by (auto simp: report_def send_def thread_alive_def split: pyval.splits list.splits)

lemma report_str:
  "report x w (PStr m) = Returned x (w\<lparr>stdout := stdout w @ [''bestmove '' @ m]\<rparr>)"
  by (simp add: report_def send_def)

lemma report_pair:
  "report x w (PSeq (PStr m # PStr p # rest)) =
     Returned x (w\<lparr>stdout := stdout w @ [''bestmove '' @ m @ '' ponder '' @ p]\<rparr>)"
  by (simp add: report_def send_def)

lemma stop_cmd_result:
  assumes st: "stop_cmd w es = Some (oc, es')" and h: "move_thread w = Some t"
  shows "\<exists>pre1 pre2 v q w3.
           es = pre1 @ pre2 @ es' \<and>
           recv_queue (task_steps pre1 (w\<lparr>send_queue := send_queue w @ [''stop'']\<rparr>)) = v # q \<and>
           w3 = task_steps pre2
                  ((task_steps pre1 (w\<lparr>send_queue := send_queue w @ [''stop'']\<rparr>))
                     \<lparr>best_move := Some v, recv_queue := q\<rparr>) \<and>
           \<not> thread_alive w3 t \<and> oc = report () w3 v"
proof -
  define w0 where "w0 = w\<lparr>send_queue := send_queue w @ [''stop'']\<rparr>"
  from st obtain w1 es1 v q where
    wr: "wait_recv w0 es = Some (w1, es1)" and rq: "recv_queue w1 = v # q"
    by (auto simp: stop_cmd_def w0_def split: option.splits list.splits)
  from wait_recv_steps[OF wr] obtain pre1 where
    es: "es = pre1 @ es1" and w1: "w1 = task_steps pre1 w0" by blast
  define w2 where "w2 = w1\<lparr>best_move := Some v, recv_queue := q\<rparr>"
  have "move_thread w2 = Some t" by (simp add: w2_def w1 task_steps_frame w0_def h)
  with st wr rq obtain w3 where j: "join t w2 es1 = Some (w3, es')" and oc: "oc = report () w3 v"
    by (auto simp: stop_cmd_def w0_def w2_def Let_def split: option.splits)
  from join_steps[OF j] obtain pre2 where
    es1: "es1 = pre2 @ es'" and w3: "w3 = task_steps pre2 w2" and dead: "\<not> thread_alive w3 t"
    by blast
  have "es = pre1 @ pre2 @ es' \<and> recv_queue (task_steps pre1 w0) = v # q \<and>
        w3 = task_steps pre2 ((task_steps pre1 w0)\<lparr>best_move := Some v, recv_queue := q\<rparr>) \<and>
        \<not> thread_alive w3 t \<and> oc = report () w3 v"
    using es es1 rq w1 w3 dead oc by (simp add: w2_def)
  then show ?thesis unfolding w0_def by blast
qed

lemma stop_cmd_outcome:
  assumes st: "stop_cmd w es = Some (oc, es')" and h: "move_thread w = Some t"
  shows "\<exists>v. best_move (state_of oc) = Some v \<and> \<not> thread_alive (state_of oc) t \<and>
           (\<exists>pre rest q. es = pre @ rest \<and>
              recv_queue (task_steps pre (w\<lparr>send_queue := send_queue w @ [''stop'']\<rparr>)) = v # q) \<and>
           (\<forall>m. v = PStr m \<longrightarrow>
              oc = Returned () (state_of oc) \<and>
              stdout (state_of oc) = stdout w @ [''bestmove '' @ m]) \<and>
           (\<forall>m p. v = PSeq [PStr m, PStr p] \<longrightarrow>
              oc = Returned () (state_of oc) \<and>
              stdout (state_of oc) = stdout w @ [''bestmove '' @ m @ '' ponder '' @ p])"
proof -
  from stop_cmd_result[OF st h] obtain pre1 pre2 v q w3 where
    es: "es = pre1 @ pre2 @ es'"
    and rq: "recv_queue (task_steps pre1 (w\<lparr>send_queue := send_queue w @ [''stop'']\<rparr>)) = v # q"
    and w3: "w3 = task_steps pre2
                  ((task_steps pre1 (w\<lparr>send_queue := send_queue w @ [''stop'']\<rparr>))
                     \<lparr>best_move := Some v, recv_queue := q\<rparr>)"
    and dead: "\<not> thread_alive w3 t" and oc: "oc = report () w3 v"
    by blast
  have bm: "best_move w3 = Some v" and out: "stdout w3 = stdout w"
    by (simp_all add: w3 task_steps_frame)
  have "best_move (state_of oc) = Some v" by (simp add: oc report_frame bm)
  moreover have "\<not> thread_alive (state_of oc) t" by (simp add: oc report_frame dead)
  moreover have "\<exists>pre rest q. es = pre @ rest \<and>
      recv_queue (task_steps pre (w\<lparr>send_queue := send_queue w @ [''stop'']\<rparr>)) = v # q"
    using es rq by blast
  moreover have "oc = Returned () (state_of oc) \<and>
      stdout (state_of oc) = stdout w @ [''bestmove '' @ m]" if "v = PStr m" for m
    using that by (simp add: oc report_str out)
  moreover have "oc = Returned () (state_of oc) \<and>
      stdout (state_of oc) = stdout w @ [''bestmove '' @ m @ '' ponder '' @ p]"
    if "v = PSeq [PStr m, PStr p]" for m p
    using that by (simp add: oc report_pair out)
  ultimately show ?thesis by blast
qed

lemma stop_cmd_returns:
  assumes "move_thread w = Some t" and "thread_alive w t" and "recv_queue w = []"
  shows "stop_cmd w ((t, Put v) # (t, Exit) # es) =
           Some (report ()
                  (w\<lparr>send_queue := send_queue w @ [''stop''], best_move := Some v,
                     recv_queue := [],
                     threads := (threads w)[t := (threads w ! t)\<lparr>alive := False\<rparr>]\<rparr>) v, es)"
proof -
  from assms(2) have "join t w' es = Some (w', es)"
    if "threads w' = (threads w)[t := (threads w ! t)\<lparr>alive := False\<rparr>]" for w'
    using that by (cases es) (simp_all add: thread_alive_def)
  with assms show ?thesis
    by (simp add: stop_cmd_def thread_alive_def Let_def)
qed


lemma process_stop: "process_command r w ''stop'' es = stop_cmd w es"
  by (simp add: process_command_def)

lemma go_movetime_0_fresh:
  "process_command r (uci_init a n) ''go movetime 0'' es =
     Some (Returned ()
            (uci_init a n
               \<lparr>threads := [\<lparr>alive = True, t_position = ''startpos'', t_time_limit = 0,
                            t_max_depth = 0\<rparr>],
                move_thread := Some 0\<rparr>), es)"
  by (simp add: process_command_def go_cmd_def go_start_def uci_init_def py_int_def strip_def
                is_space_def unsigned_def is_digit_def digit_val_def)

lemma stop_cmd_iff:
  assumes h: "move_thread w = Some t"
  shows "(stop_cmd w es \<noteq> None) = delivers (cancelled w) t es"
proof
  assume "stop_cmd w es \<noteq> None"
  then obtain oc es' where st: "stop_cmd w es = Some (oc, es')" by auto
  from stop_cmd_result[OF st h] obtain pre1 pre2 v q w3 where
    es: "es = pre1 @ pre2 @ es'"
    and rq: "recv_queue (task_steps pre1 (cancelled w)) = v # q"
    and w3: "w3 = task_steps pre2
                  ((task_steps pre1 (cancelled w))\<lparr>best_move := Some v, recv_queue := q\<rparr>)"
    and dead: "\<not> thread_alive w3 t"
    unfolding cancelled_def by blast
  define n where "n = length (pre1 @ pre2)"
  have tk: "take n es = pre1 @ pre2" by (simp add: n_def es)
  have x: "task_steps (take n es) (cancelled w) = task_steps pre2 (task_steps pre1 (cancelled w))"
    by (simp add: tk task_steps_append)
  have "recv_queue (task_steps (take n es) (cancelled w)) \<noteq> []"
    unfolding x by (rule recv_task_steps_mono) (simp add: rq)
  moreover have "threads (task_steps (take n es) (cancelled w)) = threads w3"
    unfolding x w3 by (rule threads_task_steps_cong) simp
  then have "\<not> thread_alive (task_steps (take n es) (cancelled w)) t"
    using dead by (simp add: thread_alive_def)
  moreover have "n \<le> length es" by (simp add: n_def es)
  ultimately show "delivers (cancelled w) t es" unfolding delivers_def by blast
next
  assume "delivers (cancelled w) t es"
  then obtain n where n: "n \<le> length es"
    and rn: "recv_queue (task_steps (take n es) (cancelled w)) \<noteq> []"
    and dn: "\<not> thread_alive (task_steps (take n es) (cancelled w)) t"
    unfolding delivers_def by blast
  from wait_recv_returns[OF n rn] obtain m where m: "m \<le> n"
    and wr: "wait_recv (cancelled w) es = Some (task_steps (take m es) (cancelled w), drop m es)"
    by blast
  define w1 where "w1 = task_steps (take m es) (cancelled w)"
  from wait_recv_steps[OF wr] have "recv_queue w1 \<noteq> []" by (auto simp: w1_def)
  then obtain v q where rq: "recv_queue w1 = v # q" by (cases "recv_queue w1") auto
  define w2 where "w2 = w1\<lparr>best_move := Some v, recv_queue := q\<rparr>"
  have h2: "move_thread w2 = Some t"
    by (simp add: w2_def w1_def task_steps_frame cancelled_def h)
  have split: "take n es = take m es @ take (n - m) (drop m es)"
    using m by (metis le_add_diff_inverse take_add)
  have "threads (task_steps (take (n - m) (drop m es)) w2) =
        threads (task_steps (take (n - m) (drop m es)) w1)"
    by (rule threads_task_steps_cong) (simp add: w2_def)
  also have "task_steps (take (n - m) (drop m es)) w1 = task_steps (take n es) (cancelled w)"
    by (simp add: split task_steps_append w1_def)
  finally have "\<not> thread_alive (task_steps (take (n - m) (drop m es)) w2) t"
    using dn by (simp add: thread_alive_def)
  moreover have "n - m \<le> length (drop m es)" using n by simp
  ultimately obtain k where
    "join t w2 (drop m es) = Some (task_steps (take k (drop m es)) w2, drop k (drop m es))"
    using join_returns by blast
  then have j: "join t (w1\<lparr>best_move := Some v, recv_queue := q\<rparr>) (drop m es) \<noteq> None"
    by (simp add: w2_def)
  have wr': "wait_recv (w\<lparr>send_queue := send_queue w @ [''stop'']\<rparr>) es = Some (w1, drop m es)"
    using wr by (simp add: cancelled_def w1_def)
  have h1: "move_thread w1 = Some t"
    by (simp add: w1_def task_steps_frame cancelled_def h)
  from j show "stop_cmd w es \<noteq> None"
    by (auto simp: stop_cmd_def wr' rq h1 Let_def)
qed

lemma stop_cmd_lines:
  assumes "move_thread w = Some t"
  shows "(\<forall>es oc es'. process_command r w ''stop'' es = Some (oc, es') \<longrightarrow>
            (\<exists>v. best_move (state_of oc) = Some v \<and> \<not> thread_alive (state_of oc) t \<and>
               (\<exists>pre rest q. es = pre @ rest \<and>
                  recv_queue (task_steps pre (w\<lparr>send_queue := send_queue w @ [''stop'']\<rparr>)) =
                    v # q) \<and>
               (\<forall>m. v = PStr m \<longrightarrow>
                  oc = Returned () (state_of oc) \<and>
                  stdout (state_of oc) = stdout w @ [''bestmove '' @ m]) \<and>
               (\<forall>m p. v = PSeq [PStr m, PStr p] \<longrightarrow>
                  oc = Returned () (state_of oc) \<and>
                  stdout (state_of oc) = stdout w @ [''bestmove '' @ m @ '' ponder '' @ p]))) \<and>
         (thread_alive w t \<and> recv_queue w = [] \<longrightarrow>
            (\<forall>v es. process_command r w ''stop'' ((t, Put v) # (t, Exit) # es) =
               Some (report ()
                      (w\<lparr>send_queue := send_queue w @ [''stop''], best_move := Some v,
                         recv_queue := [],
                         threads := (threads w)[t := (threads w ! t)\<lparr>alive := False\<rparr>]\<rparr>) v,
                     es))) \<and>
         (\<forall>es1 es2 w'.
            run r (uci_init a n) [(Cmd ''go movetime 0'', es1), (Cmd ''stop'', es2)] = Some w' \<longrightarrow>
            (\<exists>v. best_move w' = Some v \<and>
               (\<forall>m. v = PStr m \<longrightarrow> stdout w' = [''bestmove '' @ m]) \<and>
               (\<forall>m p. v = PSeq [PStr m, PStr p] \<longrightarrow>
                  stdout w' = [''bestmove '' @ m @ '' ponder '' @ p])))"
proof (intro conjI allI impI)
  fix es oc es'
  assume "process_command r w ''stop'' es = Some (oc, es')"
  then have "stop_cmd w es = Some (oc, es')" by (simp add: process_stop)
  then show "\<exists>v. best_move (state_of oc) = Some v \<and> \<not> thread_alive (state_of oc) t \<and>
               (\<exists>pre rest q. es = pre @ rest \<and>
                  recv_queue (task_steps pre (w\<lparr>send_queue := send_queue w @ [''stop'']\<rparr>)) =
                    v # q) \<and>
               (\<forall>m. v = PStr m \<longrightarrow>
                  oc = Returned () (state_of oc) \<and>
                  stdout (state_of oc) = stdout w @ [''bestmove '' @ m]) \<and>
               (\<forall>m p. v = PSeq [PStr m, PStr p] \<longrightarrow>
                  oc = Returned () (state_of oc) \<and>
                  stdout (state_of oc) = stdout w @ [''bestmove '' @ m @ '' ponder '' @ p])"
    using assms by (rule stop_cmd_outcome)
next
  fix v es
  assume "thread_alive w t \<and> recv_queue w = []"
  with assms show "process_command r w ''stop'' ((t, Put v) # (t, Exit) # es) =
               Some (report ()
                      (w\<lparr>send_queue := send_queue w @ [''stop''], best_move := Some v,
                         recv_queue := [],
                         threads := (threads w)[t := (threads w ! t)\<lparr>alive := False\<rparr>]\<rparr>) v,
                     es)"
    by (simp add: process_stop stop_cmd_returns)
next
  fix es1 es2 w'
  assume run: "run r (uci_init a n) [(Cmd ''go movetime 0'', es1), (Cmd ''stop'', es2)] = Some w'"
  define w1 where "w1 = task_steps es1 (uci_init a n
               \<lparr>threads := [\<lparr>alive = True, t_position = ''startpos'', t_time_limit = 0,
                            t_max_depth = 0\<rparr>],
                move_thread := Some 0\<rparr>)"
  have e1: "exec r (uci_init a n) (Cmd ''go movetime 0'', es1) = Some w1"
    by (simp add: exec_def go_movetime_0_fresh w1_def)
  have h1: "move_thread w1 = Some 0" and o1: "stdout w1 = []"
    by (simp_all add: w1_def task_steps_frame uci_init_def)
  from run e1 have "exec r w1 (Cmd ''stop'', es2) = Some w'"
    by (simp split: option.splits)
  then obtain oc es' where st: "stop_cmd w1 es2 = Some (oc, es')"
    and w': "w' = task_steps es' (state_of oc)"
    by (auto simp: exec_def process_stop split: option.splits)
  from stop_cmd_outcome[OF st h1] o1 obtain v where
    "best_move (state_of oc) = Some v"
    "\<forall>m. v = PStr m \<longrightarrow> stdout (state_of oc) = [''bestmove '' @ m]"
    "\<forall>m p. v = PSeq [PStr m, PStr p] \<longrightarrow>
       stdout (state_of oc) = [''bestmove '' @ m @ '' ponder '' @ p]"
    by auto
  then have "best_move w' = Some v \<and>
      (\<forall>m. v = PStr m \<longrightarrow> stdout w' = [''bestmove '' @ m]) \<and>
      (\<forall>m p. v = PSeq [PStr m, PStr p] \<longrightarrow> stdout w' = [''bestmove '' @ m @ '' ponder '' @ p])"
    by (simp add: w' task_steps_frame)
  then show "\<exists>v. best_move w' = Some v \<and>
               (\<forall>m. v = PStr m \<longrightarrow> stdout w' = [''bestmove '' @ m]) \<and>
               (\<forall>m p. v = PSeq [PStr m, PStr p] \<longrightarrow>
                  stdout w' = [''bestmove '' @ m @ '' ponder '' @ p])"
    by blast
qed



lemma stop_cmd_take:
  assumes "move_thread w = Some t" and "thread_alive w t"
    and "send_queue w = []" and "recv_queue w = []"
  shows "stop_cmd w ((t, Take) # (t, Put v) # (t, Exit) # es) =
           Some (report ()
                  (w\<lparr>send_queue := [], taken := taken w @ [(t, ''stop'')],
                     best_move := Some v, recv_queue := [],
                     threads := (threads w)[t := (threads w ! t)\<lparr>alive := False\<rparr>]\<rparr>) v, es)"
proof -
  from assms(2) have "join t w' es = Some (w', es)"
    if "threads w' = (threads w)[t := (threads w ! t)\<lparr>alive := False\<rparr>]" for w'
    using that by (cases es) (simp_all add: thread_alive_def)
  with assms show ?thesis
    by (simp add: stop_cmd_def thread_alive_def Let_def)
qed

text \<open>
  C3. Let the handle refer to a thread \<open>t\<close>. \<open>stop\<close> puts \<open>"stop"\<close> on the control queue
  and then ends exactly for the schedules of the search threads in which, at some
  point, thread \<open>t\<close> has returned and the result queue is not empty; the schedule in
  which the task takes the message, puts its result and returns is one. Whenever the
  call ends, it has taken the first object \<open>v\<close> that the result queue held once it was
  no longer empty, and thread \<open>t\<close> is dead; if \<open>v\<close> is a string \<open>m\<close> the call returns and
  has printed exactly the line \<open>bestmove m\<close>, and if \<open>v\<close> is a pair of strings \<open>m\<close>, \<open>p\<close>
  exactly the line \<open>bestmove m ponder p\<close>. In a fresh session, \<open>go movetime 0\<close> followed
  by \<open>stop\<close> ends for exactly those schedules too, and has then printed that one line
  and nothing else.
\<close>

theorem stop_reports_one_line:
  assumes "move_thread w = Some t"
  shows "(process_command r w ''stop'' es \<noteq> None) = delivers (cancelled w) t es \<and>
         (\<forall>es1 es2.
            (run r (uci_init a n) [(Cmd ''go movetime 0'', es1), (Cmd ''stop'', es2)] \<noteq> None) =
            delivers
              (cancelled
                 (task_steps es1
                        (uci_init a n
                           \<lparr>threads := [\<lparr>alive = True, t_position = ''startpos'',
                                         t_time_limit = 0, t_max_depth = 0\<rparr>],
                            move_thread := Some 0\<rparr>))) 0 es2) \<and>
         (\<forall>es oc es'. process_command r w ''stop'' es = Some (oc, es') \<longrightarrow>
            (\<exists>v. best_move (state_of oc) = Some v \<and> \<not> thread_alive (state_of oc) t \<and>
               (\<exists>pre rest q. es = pre @ rest \<and>
                  recv_queue (task_steps pre (w\<lparr>send_queue := send_queue w @ [''stop'']\<rparr>)) =
                    v # q) \<and>
               (\<forall>m. v = PStr m \<longrightarrow>
                  oc = Returned () (state_of oc) \<and>
                  stdout (state_of oc) = stdout w @ [''bestmove '' @ m]) \<and>
               (\<forall>m p. v = PSeq [PStr m, PStr p] \<longrightarrow>
                  oc = Returned () (state_of oc) \<and>
                  stdout (state_of oc) = stdout w @ [''bestmove '' @ m @ '' ponder '' @ p]))) \<and>
         (thread_alive w t \<and> recv_queue w = [] \<longrightarrow>
            (\<forall>v es. process_command r w ''stop'' ((t, Put v) # (t, Exit) # es) =
               Some (report ()
                      (w\<lparr>send_queue := send_queue w @ [''stop''], best_move := Some v,
                         recv_queue := [],
                         threads := (threads w)[t := (threads w ! t)\<lparr>alive := False\<rparr>]\<rparr>) v,
                     es))) \<and>
         (\<forall>es1 es2 w'.
            run r (uci_init a n) [(Cmd ''go movetime 0'', es1), (Cmd ''stop'', es2)] = Some w' \<longrightarrow>
            (\<exists>v. best_move w' = Some v \<and>
               (\<forall>m. v = PStr m \<longrightarrow> stdout w' = [''bestmove '' @ m]) \<and>
               (\<forall>m p. v = PSeq [PStr m, PStr p] \<longrightarrow>
                  stdout w' = [''bestmove '' @ m @ '' ponder '' @ p]))) \<and>
         (\<forall>es oc es'. process_command r w ''stop'' es = Some (oc, es') \<longrightarrow>
            (\<exists>pre1 pre2 v q.
               es = pre1 @ pre2 @ es' \<and>
               recv_queue (task_steps pre1 (cancelled w)) = v # q \<and>
               oc = report ()
                      (task_steps pre2
                         ((task_steps pre1 (cancelled w))
                            \<lparr>best_move := Some v, recv_queue := q\<rparr>)) v)) \<and>
         (thread_alive w t \<and> send_queue w = [] \<and> recv_queue w = [] \<longrightarrow>
            (\<forall>v es. process_command r w ''stop'' ((t, Take) # (t, Put v) # (t, Exit) # es) =
               Some (report ()
                      (w\<lparr>send_queue := [], taken := taken w @ [(t, ''stop'')],
                         best_move := Some v, recv_queue := [],
                         threads := (threads w)[t := (threads w ! t)\<lparr>alive := False\<rparr>]\<rparr>) v,
                     es)))"
proof -
  have one: "(process_command r w ''stop'' es \<noteq> None) = delivers (cancelled w) t es"
    unfolding process_stop by (rule stop_cmd_iff[OF assms])
  have two: "(run r (uci_init a n) [(Cmd ''go movetime 0'', es1), (Cmd ''stop'', es2)] \<noteq> None) =
            delivers
              (cancelled
                 (task_steps es1
                        (uci_init a n
                           \<lparr>threads := [\<lparr>alive = True, t_position = ''startpos'',
                                         t_time_limit = 0, t_max_depth = 0\<rparr>],
                            move_thread := Some 0\<rparr>))) 0 es2" for es1 es2
  proof -
    define w1 where "w1 = task_steps es1
                        (uci_init a n
                           \<lparr>threads := [\<lparr>alive = True, t_position = ''startpos'',
                                         t_time_limit = 0, t_max_depth = 0\<rparr>],
                            move_thread := Some 0\<rparr>)"
    have e1: "exec r (uci_init a n) (Cmd ''go movetime 0'', es1) = Some w1"
      by (simp add: exec_def go_movetime_0_fresh w1_def)
    have h1: "move_thread w1 = Some 0" by (simp add: w1_def task_steps_frame)
    have "run r (uci_init a n) [(Cmd ''go movetime 0'', es1), (Cmd ''stop'', es2)] =
          exec r w1 (Cmd ''stop'', es2)"
      by (simp add: e1 split: option.splits)
    then have "(run r (uci_init a n) [(Cmd ''go movetime 0'', es1), (Cmd ''stop'', es2)] \<noteq> None) =
          (stop_cmd w1 es2 \<noteq> None)"
      by (simp add: exec_def process_stop split: option.splits)
    also have "\<dots> = delivers (cancelled w1) 0 es2" by (rule stop_cmd_iff[OF h1])
    finally show ?thesis unfolding w1_def .
  qed
  have three: "\<exists>pre1 pre2 v q.
               es = pre1 @ pre2 @ es' \<and>
               recv_queue (task_steps pre1 (cancelled w)) = v # q \<and>
               oc = report ()
                      (task_steps pre2
                         ((task_steps pre1 (cancelled w))
                            \<lparr>best_move := Some v, recv_queue := q\<rparr>)) v"
    if "process_command r w ''stop'' es = Some (oc, es')" for es oc es'
  proof -
    from that have "stop_cmd w es = Some (oc, es')" by (simp add: process_stop)
    from stop_cmd_result[OF this assms] show ?thesis unfolding cancelled_def by blast
  qed
  have four: "process_command r w ''stop'' ((t, Take) # (t, Put v) # (t, Exit) # es) =
               Some (report ()
                      (w\<lparr>send_queue := [], taken := taken w @ [(t, ''stop'')],
                         best_move := Some v, recv_queue := [],
                         threads := (threads w)[t := (threads w ! t)\<lparr>alive := False\<rparr>]\<rparr>) v,
                     es)"
    if "thread_alive w t \<and> send_queue w = [] \<and> recv_queue w = []" for v es
    unfolding process_stop using assms that by (intro stop_cmd_take) simp_all
  note old = stop_cmd_lines[OF assms, of r a n]
  note o1 = old[THEN conjunct1] and o2 = old[THEN conjunct2, THEN conjunct1]
    and o3 = old[THEN conjunct2, THEN conjunct2]
  from two have c2: "\<forall>es1 es2.
            (run r (uci_init a n) [(Cmd ''go movetime 0'', es1), (Cmd ''stop'', es2)] \<noteq> None) =
            delivers
              (cancelled
                 (task_steps es1
                        (uci_init a n
                           \<lparr>threads := [\<lparr>alive = True, t_position = ''startpos'',
                                         t_time_limit = 0, t_max_depth = 0\<rparr>],
                            move_thread := Some 0\<rparr>))) 0 es2"
    by blast
  from three have c3: "\<forall>es oc es'. process_command r w ''stop'' es = Some (oc, es') \<longrightarrow>
            (\<exists>pre1 pre2 v q.
               es = pre1 @ pre2 @ es' \<and>
               recv_queue (task_steps pre1 (cancelled w)) = v # q \<and>
               oc = report ()
                      (task_steps pre2
                         ((task_steps pre1 (cancelled w))
                            \<lparr>best_move := Some v, recv_queue := q\<rparr>)) v)"
    by blast
  from four have c4: "thread_alive w t \<and> send_queue w = [] \<and> recv_queue w = [] \<longrightarrow>
            (\<forall>v es. process_command r w ''stop'' ((t, Take) # (t, Put v) # (t, Exit) # es) =
               Some (report ()
                      (w\<lparr>send_queue := [], taken := taken w @ [(t, ''stop'')],
                         best_move := Some v, recv_queue := [],
                         threads := (threads w)[t := (threads w ! t)\<lparr>alive := False\<rparr>]\<rparr>) v,
                     es))"
    by blast
  show ?thesis using one c2 o1 o2 o3 c3 c4 by - (intro conjI, assumption+)
qed

theorem stop_reports_one_line_witness:
  "move_thread
     (uci_init ''a'' ''e''
        \<lparr>threads := [\<lparr>alive = True, t_position = ''startpos'', t_time_limit = 0,
                     t_max_depth = 0\<rparr>],
         move_thread := Some 0\<rparr>) = Some 0 \<and>
   process_command stub_rules
     (uci_init ''a'' ''e''
        \<lparr>threads := [\<lparr>alive = True, t_position = ''startpos'', t_time_limit = 0,
                     t_max_depth = 0\<rparr>],
         move_thread := Some 0\<rparr>)
     ''stop'' [(0, Take), (0, Put (PStr ''e2e4'')), (0, Exit)] =
   Some (Returned ()
          (uci_init ''a'' ''e''
             \<lparr>best_move := Some (PStr ''e2e4''), move_thread := Some 0,
              threads := [\<lparr>alive = False, t_position = ''startpos'', t_time_limit = 0,
                           t_max_depth = 0\<rparr>],
              taken := [(0, ''stop'')], stdout := [''bestmove e2e4'']\<rparr>), [])"
proof -
  define w0 where "w0 = uci_init ''a'' ''e''
        \<lparr>threads := [\<lparr>alive = True, t_position = ''startpos'', t_time_limit = 0,
                     t_max_depth = 0\<rparr>],
         move_thread := Some 0\<rparr>"
  define es where "es = [(0::nat, Take), (0, Put (PStr ''e2e4'')), (0, Exit)]"
  have h: "move_thread w0 = Some 0" by (simp add: w0_def)
  have "length es \<le> length es \<and>
        recv_queue (task_steps (take (length es) es) (cancelled w0)) \<noteq> [] \<and>
        \<not> thread_alive (task_steps (take (length es) es) (cancelled w0)) 0"
    by (simp add: es_def w0_def cancelled_def uci_init_def thread_alive_def)
  then have d: "delivers (cancelled w0) 0 es" unfolding delivers_def by blast
  from stop_reports_one_line[OF h, of stub_rules es "''a''" "''e''", THEN conjunct1] d
  have "process_command stub_rules w0 ''stop'' es \<noteq> None" by simp
  with h show ?thesis unfolding w0_def es_def
    by (simp add: process_command_def stop_cmd_def uci_init_def thread_alive_def report_str)
qed

section \<open>Polling for a finished search\<close>

text \<open>
  C7, as stated, fails: after \<open>go\<close> the task has put its result on the result queue and
  its thread has not returned yet; \<open>check_best_move\<close> sees a live thread, returns
  \<open>False\<close> and leaves the result where it is.
\<close>

theorem check_best_move_task_still_running:
  "run stub_rules (uci_init ''a'' ''e'') [(Cmd ''go'', [(0, Put (PStr ''e2e4''))])] =
     Some (uci_init ''a'' ''e''
             \<lparr>recv_queue := [PStr ''e2e4''], move_thread := Some 0,
              threads := [\<lparr>alive = True, t_position = ''startpos'', t_time_limit = 0,
                           t_max_depth = 0\<rparr>]\<rparr>) \<and>
   check_best_move
     (uci_init ''a'' ''e''
        \<lparr>recv_queue := [PStr ''e2e4''], move_thread := Some 0,
         threads := [\<lparr>alive = True, t_position = ''startpos'', t_time_limit = 0,
                      t_max_depth = 0\<rparr>]\<rparr>) [] =
     Some (Returned False
            (uci_init ''a'' ''e''
               \<lparr>recv_queue := [PStr ''e2e4''], move_thread := Some 0,
                threads := [\<lparr>alive = True, t_position = ''startpos'', t_time_limit = 0,
                             t_max_depth = 0\<rparr>]\<rparr>), [])"
  by (simp add: exec_def process_command_def go_cmd_def go_start_def uci_init_def
                check_best_move_def thread_alive_def)

text \<open>
  C7, amended. \<open>check_best_move\<close> waits for nothing. If the handle refers to a thread
  that is still alive, it returns \<open>False\<close> and changes nothing, whatever the result queue
  holds. Otherwise it clears the handle; with an empty result queue it returns \<open>False\<close>
  and prints nothing; with a result at the head of the queue it takes it, reports it as
  the \<open>stop\<close> branch does (one line for a string or a pair of strings) and returns
  \<open>True\<close>.
\<close>

theorem check_best_move_behaviour:
  "\<exists>oc. check_best_move w es = Some (oc, es) \<and>
     (if \<exists>t. move_thread w = Some t \<and> thread_alive w t then oc = Returned False w
      else (case recv_queue w of
              [] \<Rightarrow> oc = Returned False (w\<lparr>move_thread := None\<rparr>)
            | v # q \<Rightarrow>
                oc = report True (w\<lparr>move_thread := None, best_move := Some v, recv_queue := q\<rparr>) v \<and>
                (\<forall>m. v = PStr m \<longrightarrow>
                   oc = Returned True
                          (w\<lparr>move_thread := None, best_move := Some v, recv_queue := q,
                             stdout := stdout w @ [''bestmove '' @ m]\<rparr>)) \<and>
                (\<forall>m p. v = PSeq [PStr m, PStr p] \<longrightarrow>
                   oc = Returned True
                          (w\<lparr>move_thread := None, best_move := Some v, recv_queue := q,
                             stdout := stdout w @ [''bestmove '' @ m @ '' ponder '' @ p]\<rparr>))))"
proof (cases "\<exists>t. move_thread w = Some t \<and> thread_alive w t")
  case True
  then show ?thesis by (auto simp: check_best_move_def)
next
  case False
  have "check_best_move w es = Some (check_recv (w\<lparr>move_thread := None\<rparr>), es)"
  proof (cases "move_thread w")
    case None
    then have eq: "w\<lparr>move_thread := None\<rparr> = w" by simp
    show ?thesis unfolding eq using None by (simp add: check_best_move_def)
  next
    case (Some t)
    with False show ?thesis by (simp add: check_best_move_def join_dead)
  qed
  with False show ?thesis
    by (auto simp: check_recv_def report_str report_pair split: list.splits)
qed

theorem check_best_move_behaviour_witness:
  "check_best_move
     (uci_init ''a'' ''e''
        \<lparr>recv_queue := [PStr ''e2e4''], move_thread := Some 0,
         threads := [\<lparr>alive = False, t_position = ''startpos'', t_time_limit = 0,
                      t_max_depth = 0\<rparr>]\<rparr>) [(0, Put (PStr ''d2d4''))] =
     Some (Returned True
            (uci_init ''a'' ''e''
               \<lparr>recv_queue := [], move_thread := None, best_move := Some (PStr ''e2e4''),
                threads := [\<lparr>alive = False, t_position = ''startpos'', t_time_limit = 0,
                             t_max_depth = 0\<rparr>],
                stdout := [''bestmove e2e4'']\<rparr>), [(0, Put (PStr ''d2d4''))])"
  using check_best_move_behaviour
    [of "uci_init ''a'' ''e''
        \<lparr>recv_queue := [PStr ''e2e4''], move_thread := Some 0,
         threads := [\<lparr>alive = False, t_position = ''startpos'', t_time_limit = 0,
                      t_max_depth = 0\<rparr>]\<rparr>" "[(0, Put (PStr ''d2d4''))]"]
  by (auto simp: thread_alive_def uci_init_def)

section \<open>Polling after stop\<close>

text \<open>
  C6. A fresh session processes \<open>go movetime 0\<close> and then \<open>stop\<close>, while the task takes
  the message from the control queue, puts its move and returns. \<open>stop\<close> prints the
  line and joins the thread, and afterwards the handle still refers to that thread: the
  \<open>stop\<close> branch never assigns \<open>move_thread\<close>, where the \<open>go\<close> branch and
  \<open>check_best_move\<close> both set it to \<open>None\<close> after their \<open>join\<close>.
\<close>

theorem stop_leaves_handle_set:
  "run stub_rules (uci_init ''a'' ''e'')
     [(Cmd ''go movetime 0'', []),
      (Cmd ''stop'', [(0, Take), (0, Put (PStr ''e2e4'')), (0, Exit)])] =
     Some (uci_init ''a'' ''e''
             \<lparr>best_move := Some (PStr ''e2e4''), move_thread := Some 0,
              threads := [\<lparr>alive = False, t_position = ''startpos'', t_time_limit = 0,
                           t_max_depth = 0\<rparr>],
              taken := [(0, ''stop'')], stdout := [''bestmove e2e4'']\<rparr>) \<and>
   move_thread
     (uci_init ''a'' ''e''
        \<lparr>best_move := Some (PStr ''e2e4''), move_thread := Some 0,
         threads := [\<lparr>alive = False, t_position = ''startpos'', t_time_limit = 0,
                      t_max_depth = 0\<rparr>],
         taken := [(0, ''stop'')], stdout := [''bestmove e2e4'']\<rparr>) \<noteq> None"
  by (simp add: exec_def process_command_def go_cmd_def go_start_def uci_init_def
                stop_cmd_def thread_alive_def report_str py_int_def strip_def
                is_space_def unsigned_def is_digit_def digit_val_def)

section \<open>A superseded search\<close>

lemma dead_not_alive: "dead w t \<Longrightarrow> \<not> thread_alive w t"
  by (simp add: dead_def thread_alive_def)

lemma task_step_dead_noop: "dead w t \<Longrightarrow> task_step (t, a) w = w"
  by (simp add: dead_not_alive)

lemma dead_task_step: "dead w t \<Longrightarrow> dead (task_step e w) t"
  by (cases e)
    (auto simp: dead_def thread_alive_def nth_list_update split: action.splits list.splits)

lemma dead_task_steps: "dead w t \<Longrightarrow> dead (task_steps es w) t"
  by (induction es arbitrary: w) (simp_all add: dead_task_step)

lemma dead_frame:
  "threads w' = threads w \<Longrightarrow> dead w' t = dead w t"
  by (simp add: dead_def)

lemma without_Cons:
  "without t (e # es) = (if fst e = t then without t es else e # without t es)"
  by (simp add: without_def)

lemma task_steps_without: "dead w t \<Longrightarrow> task_steps (without t es) w = task_steps es w"
proof (induction es arbitrary: w)
  case Nil
  then show ?case by (simp add: without_def)
next
  case (Cons e es)
  show ?case
  proof (cases "fst e = t")
    case True
    then obtain a where e: "e = (t, a)" by (cases e) simp
    with Cons show ?thesis by (simp add: without_Cons task_step_dead_noop del: task_step.simps)
  next
    case False
    with Cons show ?thesis by (simp add: without_Cons dead_task_step del: task_step.simps)
  qed
qed

lemma join_without:
  "dead w t \<Longrightarrow>
     join u w (without t es) = map_option (\<lambda>(w', es'). (w', without t es')) (join u w es)"
proof (induction es arbitrary: w)
  case Nil
  then show ?case by (simp add: without_def)
next
  case (Cons e es)
  show ?case
  proof (cases "thread_alive w u")
    case False
    then show ?thesis by (simp add: join_dead)
  next
    case alive: True
    show ?thesis
    proof (cases "fst e = t")
      case True
      then obtain a where e: "e = (t, a)" by (cases e) simp
      have "join u w (without t (e # es)) = join u w (without t es)"
        by (simp add: without_Cons True)
      also have "\<dots> = map_option (\<lambda>(w', es'). (w', without t es')) (join u w es)"
        using Cons by simp
      also have "join u w es = join u w (e # es)"
        using alive Cons.prems by (simp add: e task_step_dead_noop del: task_step.simps)
      finally show ?thesis .
    next
      case False
      with alive Cons show ?thesis
        by (simp add: without_Cons dead_task_step del: task_step.simps)
    qed
  qed
qed

lemma wait_recv_ready: "recv_queue w \<noteq> [] \<Longrightarrow> wait_recv w es = Some (w, es)"
  by (cases es) simp_all

lemma wait_recv_without:
  "dead w t \<Longrightarrow>
     wait_recv w (without t es) =
       map_option (\<lambda>(w', es'). (w', without t es')) (wait_recv w es)"
proof (induction es arbitrary: w)
  case Nil
  then show ?case by (simp add: without_def)
next
  case (Cons e es)
  show ?case
  proof (cases "recv_queue w = []")
    case False
    then show ?thesis by (simp add: wait_recv_ready)
  next
    case empty: True
    show ?thesis
    proof (cases "fst e = t")
      case True
      then obtain a where e: "e = (t, a)" by (cases e) simp
      have "wait_recv w (without t (e # es)) = wait_recv w (without t es)"
        by (simp add: without_Cons True)
      also have "\<dots> = map_option (\<lambda>(w', es'). (w', without t es')) (wait_recv w es)"
        using Cons by simp
      also have "wait_recv w es = wait_recv w (e # es)"
        using empty Cons.prems by (simp add: e task_step_dead_noop del: task_step.simps)
      finally show ?thesis .
    next
      case False
      with empty Cons show ?thesis
        by (simp add: without_Cons dead_task_step del: task_step.simps)
    qed
  qed
qed

lemma dead_join: "dead w t \<Longrightarrow> join u w es = Some (w', es') \<Longrightarrow> dead w' t"
  by (auto dest!: join_steps simp: dead_task_steps)

lemma dead_wait_recv: "dead w t \<Longrightarrow> wait_recv w es = Some (w', es') \<Longrightarrow> dead w' t"
  by (auto dest!: wait_recv_steps simp: dead_task_steps)

lemma dead_report: "dead (state_of (report x w v)) t = dead w t"
  by (rule dead_frame) (rule state_of_report)

lemma dead_go_start: "dead w t \<Longrightarrow> dead (state_of (go_start w command)) t"
  by (auto simp: go_start_def Let_def dead_def nth_append split: sum.splits prod.splits)


lemma go_cmd_without:
  assumes "dead w t"
  shows "go_cmd w command (without t es) =
           map_option (\<lambda>(oc, es'). (oc, without t es')) (go_cmd w command es)"
proof (cases "move_thread w")
  case None
  then show ?thesis by (simp add: go_cmd_def)
next
  case (Some u)
  from assms have "dead (w\<lparr>send_queue := send_queue w @ [''stop'']\<rparr>) t"
    by (simp add: dead_def)
  from join_without[OF this] Some show ?thesis
    by (simp add: go_cmd_def split: option.splits)
qed

lemma dead_go_cmd:
  assumes "dead w t" and "go_cmd w command es = Some (oc, es')"
  shows "dead (state_of oc) t"
proof (cases "move_thread w")
  case None
  with assms show ?thesis by (auto simp: go_cmd_def dead_go_start)
next
  case (Some u)
  with assms(2) obtain w1 where
    j: "join u (w\<lparr>send_queue := send_queue w @ [''stop'']\<rparr>) es = Some (w1, es')"
    and oc: "oc = go_start (w1\<lparr>move_thread := None\<rparr>) command"
    by (auto simp: go_cmd_def split: option.splits)
  from assms(1) have "dead (w\<lparr>send_queue := send_queue w @ [''stop'']\<rparr>) t"
    by (simp add: dead_def)
  then have "dead w1 t" using j by (rule dead_join)
  then have "dead (w1\<lparr>move_thread := None\<rparr>) t" by (simp add: dead_def)
  then show ?thesis unfolding oc by (rule dead_go_start)
qed

lemma stop_cmd_without:
  assumes "dead w t"
  shows "stop_cmd w (without t es) =
           map_option (\<lambda>(oc, es'). (oc, without t es')) (stop_cmd w es)"
proof -
  define w0 where "w0 = w\<lparr>send_queue := send_queue w @ [''stop'']\<rparr>"
  from assms have d0: "dead w0 t" by (simp add: dead_def w0_def)
  show ?thesis
  proof (cases "wait_recv w0 es")
    case None
    with wait_recv_without[OF d0, of es] show ?thesis
      by (simp add: stop_cmd_def w0_def)
  next
    case (Some p)
    then obtain w1 es1 where wr: "wait_recv w0 es = Some (w1, es1)" by (cases p) simp
    with wait_recv_without[OF d0, of es]
    have wr': "wait_recv w0 (without t es) = Some (w1, without t es1)" by simp
    from d0 wr have d1: "dead w1 t" by (rule dead_wait_recv)
    show ?thesis
    proof (cases "recv_queue w1")
      case Nil
      with wr wr' show ?thesis by (simp add: stop_cmd_def w0_def)
    next
      case (Cons v q)
      define w2 where "w2 = w1\<lparr>best_move := Some v, recv_queue := q\<rparr>"
      from d1 have d2: "dead w2 t" by (simp add: dead_def w2_def)
      show ?thesis
      proof (cases "move_thread w1")
        case None
        with wr wr' Cons show ?thesis by (simp add: stop_cmd_def w0_def)
      next
        case (Some u)
        have l: "stop_cmd w (without t es) =
                   map_option (\<lambda>(w3, es3). (report () w3 v, es3)) (join u w2 (without t es1))"
          using wr' Cons Some by (simp add: stop_cmd_def w0_def w2_def split: option.splits)
        have r: "stop_cmd w es = map_option (\<lambda>(w3, es3). (report () w3 v, es3)) (join u w2 es1)"
          using wr Cons Some by (simp add: stop_cmd_def w0_def w2_def split: option.splits)
        show ?thesis unfolding l r join_without[OF d2]
          by (simp add: option.map_comp comp_def split_def)
      qed
    qed
  qed
qed

lemma dead_stop_cmd:
  assumes "dead w t" and "stop_cmd w es = Some (oc, es')"
  shows "dead (state_of oc) t"
proof -
  define w0 where "w0 = w\<lparr>send_queue := send_queue w @ [''stop'']\<rparr>"
  from assms(1) have d0: "dead w0 t" by (simp add: dead_def w0_def)
  from assms(2) obtain w1 es1 v q where
    wr: "wait_recv w0 es = Some (w1, es1)" and rq: "recv_queue w1 = v # q"
    by (auto simp: stop_cmd_def w0_def split: option.splits list.splits)
  from d0 wr have d1: "dead w1 t" by (rule dead_wait_recv)
  define w2 where "w2 = w1\<lparr>best_move := Some v, recv_queue := q\<rparr>"
  from d1 have d2: "dead w2 t" by (simp add: dead_def w2_def)
  show ?thesis
  proof (cases "move_thread w1")
    case None
    with assms(2) wr rq have "oc = Raised AttributeError w2"
      by (simp add: stop_cmd_def w0_def w2_def)
    with d2 show ?thesis by simp
  next
    case (Some u)
    with assms(2) wr rq obtain w3 where j: "join u w2 es1 = Some (w3, es')"
      and oc: "oc = report () w3 v"
      by (auto simp: stop_cmd_def w0_def w2_def split: option.splits)
    from d2 j have "dead w3 t" by (rule dead_join)
    then show ?thesis by (simp add: oc dead_report)
  qed
qed

lemma process_command_without:
  "dead w t \<Longrightarrow>
     process_command r w command (without t es) =
       map_option (\<lambda>(oc, es'). (oc, without t es')) (process_command r w command es)"
  by (simp add: process_command_def go_cmd_without stop_cmd_without)

lemma dead_process_command:
  assumes d: "dead w t" and pc: "process_command r w command es = Some (oc, es')"
  shows "dead (state_of oc) t"
proof -
  have same: "dead (state_of x) t" if "threads (state_of x) = threads w"
    for x :: "unit outcome"
    using that d by (simp add: dead_def)
  from process_command_cases[OF pc] show ?thesis
  proof (elim disjE)
    assume "go_cmd w command es = Some (oc, es')"
    with d show ?thesis by (rule dead_go_cmd)
  next
    assume "stop_cmd w es = Some (oc, es')"
    with d show ?thesis by (rule dead_stop_cmd)
  next
    assume pos: "oc = position_cmd r w command"
    show ?thesis unfolding pos by (rule same) (rule position_cmd_tasks)
  next
    assume uci: "oc = Returned () (uci_cmd w)"
    show ?thesis unfolding uci by (rule same) (simp add: uci_cmd_def send_def)
  next
    assume ready: "oc = Returned () (send w ''readyok'')"
    show ?thesis unfolding ready by (rule same) (simp add: send_def)
  next
    assume new: "oc = Returned () (w\<lparr>position := ''startpos''\<rparr>)"
    show ?thesis unfolding new by (rule same) simp
  next
    assume skip: "oc = Returned () w"
    show ?thesis unfolding skip by (rule same) simp
  next
    assume quit: "oc = Exited w"
    show ?thesis unfolding quit by (rule same) simp
  qed
qed

lemma check_best_move_returns:
  "check_best_move w es =
     Some (if \<exists>u. move_thread w = Some u \<and> thread_alive w u then Returned False w
           else check_recv (w\<lparr>move_thread := None\<rparr>), es)"
proof (cases "move_thread w")
  case None
  then have eq: "w\<lparr>move_thread := None\<rparr> = w" by simp
  show ?thesis unfolding eq using None by (simp add: check_best_move_def)
next
  case (Some u)
  then show ?thesis by (simp add: check_best_move_def join_dead)
qed

lemma dead_check_best_move:
  assumes "dead w t" and "check_best_move w es = Some (oc, es')"
  shows "dead (state_of oc) t"
proof -
  from assms(2) have "threads (state_of oc) = threads w"
    by (auto simp: check_best_move_returns check_recv_tasks split: if_splits)
  with assms(1) show ?thesis by (simp add: dead_def)
qed

lemma exec_without:
  assumes d: "dead w t"
  shows "exec r w (k, without t es) = exec r w (k, es)"
proof (cases k)
  case (Cmd command)
  show ?thesis
  proof (cases "process_command r w command es")
    case None
    with Cmd show ?thesis by (simp add: exec_def process_command_without[OF d])
  next
    case (Some p)
    then obtain oc es' where pc: "process_command r w command es = Some (oc, es')"
      by (cases p) simp
    from d pc have "dead (state_of oc) t" by (rule dead_process_command)
    then have "task_steps (without t es') (state_of oc) = task_steps es' (state_of oc)"
      by (rule task_steps_without)
    with Cmd pc show ?thesis by (simp add: exec_def process_command_without[OF d])
  qed
next
  case Poll
  have "dead (state_of oc) t" if "check_best_move w es = Some (oc, es)" for oc
    using d that by (rule dead_check_best_move)
  then show ?thesis using Poll
    by (simp add: exec_def check_best_move_returns[of w] task_steps_without)
qed

lemma dead_exec:
  assumes d: "dead w t" and ex: "exec r w c = Some w'"
  shows "dead w' t"
proof (cases c)
  case (Pair k es)
  show ?thesis
  proof (cases k)
    case (Cmd command)
    with Pair ex obtain oc es' where
      pc: "process_command r w command es = Some (oc, es')"
      and w': "w' = task_steps es' (state_of oc)"
      by (auto simp: exec_def split: option.splits)
    from d pc have "dead (state_of oc) t" by (rule dead_process_command)
    then show ?thesis unfolding w' by (rule dead_task_steps)
  next
    case Poll
    with Pair ex obtain oc es' where
      cb: "check_best_move w es = Some (oc, es')"
      and w': "w' = task_steps es' (state_of oc)"
      by (auto simp: exec_def split: option.splits)
    from d cb have "dead (state_of oc) t" by (rule dead_check_best_move)
    then show ?thesis unfolding w' by (rule dead_task_steps)
  qed
qed

lemma run_without:
  "dead w t \<Longrightarrow> run r w (map (\<lambda>(k, es). (k, without t es)) cs) = run r w cs"
proof (induction cs arbitrary: w)
  case Nil
  then show ?case by simp
next
  case (Cons c cs)
  obtain k es where c: "c = (k, es)" by (cases c)
  show ?case
  proof (cases "exec r w (k, es)")
    case None
    then show ?thesis by (simp add: c exec_without[OF Cons.prems])
  next
    case (Some w')
    with Cons.prems have "dead w' t" by (rule dead_exec)
    then have "run r w' (map (\<lambda>(k, es). (k, without t es)) cs) = run r w' cs"
      by (rule Cons.IH)
    with Some show ?thesis by (simp add: c exec_without[OF Cons.prems])
  qed
qed


lemma go_start_queues:
  "send_queue (state_of (go_start w command)) = []"
  "recv_queue (state_of (go_start w command)) = []"
  "stdout (state_of (go_start w command)) = stdout w"
  "length (threads w) \<le> length (threads (state_of (go_start w command)))"
  by (auto simp: go_start_def Let_def drain_empty split: sum.splits prod.splits)

lemma go_cmd_queues:
  assumes "go_cmd w command es = Some (oc, es')"
  shows "send_queue (state_of oc) = []" and "recv_queue (state_of oc) = []"
    and "stdout (state_of oc) = stdout w"
    and "length (threads w) \<le> length (threads (state_of oc))"
proof -
  obtain w1 where oc: "oc = go_start w1 command" and out: "stdout w1 = stdout w"
    and len: "length (threads w1) = length (threads w)"
  proof (cases "move_thread w")
    case None
    with assms have "oc = go_start w command" by (simp add: go_cmd_def)
    then show ?thesis by (rule that) simp_all
  next
    case (Some u)
    with assms obtain w0 where
      j: "join u (w\<lparr>send_queue := send_queue w @ [''stop'']\<rparr>) es = Some (w0, es')"
      and g: "oc = go_start (w0\<lparr>move_thread := None\<rparr>) command"
      by (auto simp: go_cmd_def split: option.splits)
    from join_steps[OF j] obtain pre where
      "w0 = task_steps pre (w\<lparr>send_queue := send_queue w @ [''stop'']\<rparr>)" by blast
    then have "stdout (w0\<lparr>move_thread := None\<rparr>) = stdout w"
      "length (threads (w0\<lparr>move_thread := None\<rparr>)) = length (threads w)"
      by (simp_all add: task_steps_frame)
    with g show ?thesis by (rule that)
  qed
  show "send_queue (state_of oc) = []" and "recv_queue (state_of oc) = []"
    by (simp_all add: oc go_start_queues)
  show "stdout (state_of oc) = stdout w" by (simp add: oc go_start_queues out)
  show "length (threads w) \<le> length (threads (state_of oc))"
    using go_start_queues(4)[of w1 command] by (simp add: oc len)
qed

text \<open>
  C2, as stated, fails: between two \<open>go\<close> commands with no \<open>stop\<close>, the first task puts
  its move and returns, and \<open>check_best_move\<close>, called as the loop of
  \<open>example_engine.py\<close> calls it after every command, prints that move.
\<close>

theorem first_result_polled_between_go:
  "run stub_rules (uci_init ''a'' ''e'')
     [(Cmd ''go'', [(0, Put (PStr ''e2e4'')), (0, Exit)]), (Poll, []), (Cmd ''go'', [])] =
     Some (uci_init ''a'' ''e''
             \<lparr>best_move := Some (PStr ''e2e4''), move_thread := Some 1,
              threads := [\<lparr>alive = False, t_position = ''startpos'', t_time_limit = 0,
                           t_max_depth = 0\<rparr>,
                          \<lparr>alive = True, t_position = ''startpos'', t_time_limit = 0,
                           t_max_depth = 0\<rparr>],
              stdout := [''bestmove e2e4'']\<rparr>)"
  by (simp add: exec_def process_command_def go_cmd_def go_start_def uci_init_def
                check_best_move_def check_recv_def thread_alive_def report_str)

text \<open>
  C2, amended. Let \<open>go\<close> be processed in a state that a session reaches from a fresh
  \<open>UCI\<close> object. If a handle is set, the call puts \<open>"stop"\<close> on the control queue, so
  that a task which takes a message during the wait takes \<open>"stop"\<close>, and it ends
  exactly when the thread of the handle returns. When the call ends, both queues are
  empty and it has printed nothing. Every thread started before the call is dead, and
  whatever such a thread is scheduled to do from then on changes nothing: every later
  session runs to the same state, so prints the same lines, with that thread's actions
  left out of the schedule. What the superseded task had on the result queue is gone,
  and what it might still try to put never arrives.
\<close>

theorem superseded_result_never_reported:
  assumes "run r (uci_init a n) cs = Some w"
    and "startswith command ''go''" and "\<not> startswith command ''position''"
    and "process_command r w command es = Some (oc, es')"
  shows "send_queue (state_of oc) = [] \<and> recv_queue (state_of oc) = [] \<and>
         stdout (state_of oc) = stdout w \<and>
         (\<forall>t < length (threads w).
            dead (state_of oc) t \<and>
            (\<forall>sched cs'.
               run r (task_steps (without t sched) (state_of oc))
                     (map (\<lambda>(k, s). (k, without t s)) cs') =
               run r (task_steps sched (state_of oc)) cs')) \<and>
         (\<forall>t. move_thread w = Some t \<longrightarrow>
            (\<exists>pre. es = pre @ es' \<and> \<not> thread_alive (task_steps pre (cancelled w)) t \<and>
               oc = go_start ((task_steps pre (cancelled w))\<lparr>move_thread := None\<rparr>) command \<and>
               taken (state_of oc) = taken (task_steps pre (cancelled w)))) \<and>
         (\<forall>t es2. move_thread w = Some t \<longrightarrow>
            (process_command r w command es2 \<noteq> None) = dies_in (cancelled w) t es2) \<and>
         (\<forall>t es2. move_thread w = Some t \<and> thread_alive w t \<and> send_queue w = [] \<longrightarrow>
            (\<exists>oc2. process_command r w command ((t, Take) # (t, Exit) # es2) = Some (oc2, es2) \<and>
               taken (state_of oc2) = taken w @ [(t, ''stop'')]))"
proof -
  have ok: "tasks_ok w" using tasks_ok_init assms(1) by (rule run_ok)
  from assms(2) have "command \<noteq> ''uci''" "command \<noteq> ''isready''" by auto
  with assms have go: "go_cmd w command es = Some (oc, es')"
    by (simp add: process_command_def)
  have later: "dead (state_of oc) t \<and>
            (\<forall>sched cs'.
               run r (task_steps (without t sched) (state_of oc))
                     (map (\<lambda>(k, s). (k, without t s)) cs') =
               run r (task_steps sched (state_of oc)) cs')"
    if t: "t < length (threads w)" for t
  proof -
    from go_cmd_joined(2)[OF ok go t] go_cmd_queues(4)[OF go] t
    have d: "dead (state_of oc) t" by (simp add: dead_def thread_alive_def)
    have "run r (task_steps (without t sched) (state_of oc))
                (map (\<lambda>(k, s). (k, without t s)) cs') =
          run r (task_steps sched (state_of oc)) cs'" for sched cs'
      using d by (simp add: task_steps_without run_without dead_task_steps)
    with d show ?thesis by blast
  qed
  have pc: "process_command r w command es2 = go_cmd w command es2" for es2
    using assms(2,3) \<open>command \<noteq> ''uci''\<close> \<open>command \<noteq> ''isready''\<close>
    by (simp add: process_command_def)
  from go_cmd_queues(1-3)[OF go] later have first: "send_queue (state_of oc) = [] \<and> recv_queue (state_of oc) = [] \<and>
         stdout (state_of oc) = stdout w \<and>
         (\<forall>t < length (threads w).
            dead (state_of oc) t \<and>
            (\<forall>sched cs'.
               run r (task_steps (without t sched) (state_of oc))
                     (map (\<lambda>(k, s). (k, without t s)) cs') =
               run r (task_steps sched (state_of oc)) cs'))"
    by blast
  have second: "\<exists>pre. es = pre @ es' \<and> \<not> thread_alive (task_steps pre (cancelled w)) t \<and>
               oc = go_start ((task_steps pre (cancelled w))\<lparr>move_thread := None\<rparr>) command \<and>
               taken (state_of oc) = taken (task_steps pre (cancelled w))"
    if "move_thread w = Some t" for t
    using go that by (rule go_cmd_cancel)
  have third: "(process_command r w command es2 \<noteq> None) = dies_in (cancelled w) t es2"
    if "move_thread w = Some t" for t es2
    unfolding pc using that by (rule go_cmd_iff)
  have fourth: "\<exists>oc2. process_command r w command ((t, Take) # (t, Exit) # es2) = Some (oc2, es2) \<and>
               taken (state_of oc2) = taken w @ [(t, ''stop'')]"
    if "move_thread w = Some t \<and> thread_alive w t \<and> send_queue w = []" for t es2
    unfolding pc using that go_cmd_take by blast
  from first second third fourth show ?thesis by blast
qed


theorem superseded_result_never_reported_witness:
  "run stub_rules (uci_init ''a'' ''e'') [(Cmd ''go'', [(0, Put (PStr ''e2e4''))])] =
     Some (uci_init ''a'' ''e''
             \<lparr>recv_queue := [PStr ''e2e4''], move_thread := Some 0,
              threads := [\<lparr>alive = True, t_position = ''startpos'', t_time_limit = 0,
                           t_max_depth = 0\<rparr>]\<rparr>) \<and>
   startswith ''go infinite'' ''go'' \<and> \<not> startswith ''go infinite'' ''position'' \<and>
   process_command stub_rules
     (uci_init ''a'' ''e''
        \<lparr>recv_queue := [PStr ''e2e4''], move_thread := Some 0,
         threads := [\<lparr>alive = True, t_position = ''startpos'', t_time_limit = 0,
                      t_max_depth = 0\<rparr>]\<rparr>)
     ''go infinite'' [(0, Exit)] =
     Some (Returned ()
            (uci_init ''a'' ''e''
               \<lparr>move_thread := Some 1,
                threads := [\<lparr>alive = False, t_position = ''startpos'', t_time_limit = 0,
                             t_max_depth = 0\<rparr>,
                            \<lparr>alive = True, t_position = ''startpos'',
                             t_time_limit = 999999999, t_max_depth = 0\<rparr>]\<rparr>), []) \<and>
   recv_queue
     (uci_init ''a'' ''e''
        \<lparr>move_thread := Some 1,
         threads := [\<lparr>alive = False, t_position = ''startpos'', t_time_limit = 0,
                      t_max_depth = 0\<rparr>,
                     \<lparr>alive = True, t_position = ''startpos'',
                      t_time_limit = 999999999, t_max_depth = 0\<rparr>]\<rparr>) = []"
proof -
  define w1 where "w1 = uci_init ''a'' ''e''
             \<lparr>recv_queue := [PStr ''e2e4''], move_thread := Some 0,
              threads := [\<lparr>alive = True, t_position = ''startpos'', t_time_limit = 0,
                           t_max_depth = 0\<rparr>]\<rparr>"
  define w2 where "w2 = uci_init ''a'' ''e''
               \<lparr>move_thread := Some 1,
                threads := [\<lparr>alive = False, t_position = ''startpos'', t_time_limit = 0,
                             t_max_depth = 0\<rparr>,
                            \<lparr>alive = True, t_position = ''startpos'',
                             t_time_limit = 999999999, t_max_depth = 0\<rparr>]\<rparr>"
  have h1: "run stub_rules (uci_init ''a'' ''e'') [(Cmd ''go'', [(0, Put (PStr ''e2e4''))])] =
              Some w1"
    by (simp add: w1_def exec_def process_command_def go_cmd_def go_start_def uci_init_def
                  thread_alive_def)
  have h2: "startswith ''go infinite'' ''go''" and h3: "\<not> startswith ''go infinite'' ''position''"
    by simp_all
  have h4: "process_command stub_rules w1 ''go infinite'' [(0, Exit)] = Some (Returned () w2, [])"
    by (simp add: w1_def w2_def process_command_def go_cmd_def go_start_def uci_init_def
                  thread_alive_def)
  from superseded_result_never_reported[OF h1 h2 h3 h4]
  have "recv_queue w2 = []" by simp
  with h1 h2 h3 h4 show ?thesis unfolding w1_def w2_def by simp
qed


end
